theory Spec2Isabelle
  imports Main "HOL-Library.AList" "HOL-Library.Product_Lexorder"
begin

section \<open>The puzzle description\<close>

text \<open>
  Modelled from the spec: the classes \<open>Variable\<close> and \<open>Crossword\<close> live in the module
  \<open>crossword\<close>, which \<open>generate.py\<close> imports and which is not among the sources. A
  variable is a slot of the grid: start row, start column, direction and length; two
  variables are equal iff all four attributes are.
\<close>

datatype direction = ACROSS | DOWN

datatype Variable =
  Variable (var_i: nat) (var_j: nat) (var_direction: direction) (var_length: nat)

text \<open>
  Modelled from the spec: the puzzle description as the solver reads it. The set of
  variables and the set of words are Python sets, modelled by lists whose order stands
  for the iteration order. The table of overlaps is read with
  \<open>overlaps.get((x, y))\<close>: \<open>None\<close> for a pair that does not intersect, the pair of
  indices \<open>(i, j)\<close> otherwise.
\<close>

record Crossword =
  variables :: "Variable list"
  words :: "string list"
  overlaps :: "Variable \<times> Variable \<Rightarrow> (nat \<times> nat) option"

text \<open>
  Modelled from the spec: the method \<open>Crossword.neighbors\<close> is not part of
  \<open>generate.py\<close>. The neighbor relation is derived from the overlap relation: the
  neighbors of a variable are the other variables of the puzzle that intersect it.
\<close>

definition neighbors :: "Crossword \<Rightarrow> Variable \<Rightarrow> Variable list" where
  "neighbors cw var = [v \<leftarrow> variables cw. v \<noteq> var \<and> overlaps cw (var, v) \<noteq> None]"

section \<open>The solver state\<close>

text \<open>
  An object of the class \<open>CrosswordCreator\<close> holds the puzzle and the dictionary
  \<open>domains\<close>. The dictionary is an association list in insertion order; each domain is a
  Python set of words, modelled by a list in iteration order.
\<close>

record CrosswordCreator =
  crossword :: Crossword
  domains :: "(Variable \<times> string list) list"

type_synonym Assignment = "(Variable \<times> string) list"

text \<open>The exceptions that indexing a string and reading a dictionary can raise.\<close>

datatype error = KeyError | IndexError

definition init :: "Crossword \<Rightarrow> CrosswordCreator" where
  "init cw = \<lparr>crossword = cw, domains = map (\<lambda>var. (var, words cw)) (variables cw)\<rparr>"

subsection \<open>Node consistency\<close>

definition enforce_node_consistency :: "CrosswordCreator \<Rightarrow> CrosswordCreator" where
  "enforce_node_consistency self =
     self\<lparr>domains :=
       map (\<lambda>(var, ws). (var, [word \<leftarrow> ws. length word = var_length var])) (domains self)\<rparr>"

subsection \<open>Revising one arc\<close>

text \<open>
  \<open>any(word[i] == other[j] for other in self.domains[y])\<close>: the words of \<open>y\<close>'s domain are
  tried in order and the search stops at the first match; reading a letter beyond the
  end of a word raises \<open>IndexError\<close>.
\<close>

fun any_match :: "string \<Rightarrow> nat \<Rightarrow> nat \<Rightarrow> string list \<Rightarrow> error + bool" where
  "any_match word i j [] = Inr False"
| "any_match word i j (other # rest) =
     (if i < length word \<and> j < length other
      then (if word ! i = other ! j then Inr True else any_match word i j rest)
      else Inl IndexError)"

text \<open>The loop of \<open>revise\<close> that collects \<open>to_remove\<close>.\<close>

fun to_remove_of ::
  "CrosswordCreator \<Rightarrow> Variable \<Rightarrow> nat \<Rightarrow> nat \<Rightarrow> string list \<Rightarrow> error + string list" where
  "to_remove_of self y i j [] = Inr []"
| "to_remove_of self y i j (word # rest) =
     (case map_of (domains self) y of
        None \<Rightarrow> Inl KeyError
      | Some dy \<Rightarrow>
          (case any_match word i j dy of
             Inl e \<Rightarrow> Inl e
           | Inr found \<Rightarrow>
               (case to_remove_of self y i j rest of
                  Inl e \<Rightarrow> Inl e
                | Inr to_remove \<Rightarrow> Inr (if found then to_remove else word # to_remove))))"

text \<open>
  \<open>revise\<close> returns its result, or the exception it raised, together with the state it
  leaves behind.
\<close>

definition revise ::
  "CrosswordCreator \<Rightarrow> Variable \<Rightarrow> Variable \<Rightarrow> (error + bool) \<times> CrosswordCreator" where
  "revise self x y =
     (case overlaps (crossword self) (x, y) of
        None \<Rightarrow> (Inr False, self)
      | Some (i, j) \<Rightarrow>
          (case map_of (domains self) x of
             None \<Rightarrow> (Inl KeyError, self)
           | Some dx \<Rightarrow>
               (case to_remove_of self y i j dx of
                  Inl e \<Rightarrow> (Inl e, self)
                | Inr to_remove \<Rightarrow>
                    if to_remove \<noteq> []
                    then (Inr True,
                          self\<lparr>domains :=
                            AList.update x [w \<leftarrow> dx. w \<notin> set to_remove] (domains self)\<rparr>)
                    else (Inr False, self))))"

subsection \<open>AC-3\<close>

partial_function (option) ac3_loop ::
  "CrosswordCreator \<Rightarrow> (Variable \<times> Variable) list \<Rightarrow>
     ((error + bool) \<times> CrosswordCreator) option" where
  "ac3_loop self queue =
     (case queue of
        [] \<Rightarrow> Some (Inr True, self)
      | (x, y) # rest \<Rightarrow>
          (case revise self x y of
             (Inl e, self') \<Rightarrow> Some (Inl e, self')
           | (Inr revised, self') \<Rightarrow>
               if revised
               then (case map_of (domains self') x of
                       None \<Rightarrow> Some (Inl KeyError, self')
                     | Some dx \<Rightarrow>
                         if dx = [] then Some (Inr False, self')
                         else ac3_loop self'
                                (rest @ map (\<lambda>z. (z, x))
                                          (removeAll y (neighbors (crossword self') x))))
               else ac3_loop self' rest))"

definition ac3 ::
  "CrosswordCreator \<Rightarrow> (Variable \<times> Variable) list option \<Rightarrow>
     ((error + bool) \<times> CrosswordCreator) option" where
  "ac3 self arcs =
     ac3_loop self
       (case arcs of
          None \<Rightarrow> concat (map (\<lambda>x. map (\<lambda>y. (x, y)) (neighbors (crossword self) x))
                            (map fst (domains self)))
        | Some as \<Rightarrow> as)"

subsection \<open>The consistency checker\<close>

definition assignment_complete :: "CrosswordCreator \<Rightarrow> Assignment \<Rightarrow> bool" where
  "assignment_complete self assignment \<longleftrightarrow>
     set (map fst assignment) = set (variables (crossword self))"

text \<open>The inner loop of \<open>consistent\<close>, over the neighbors of one assigned variable.\<close>

fun check_neighbors ::
  "CrosswordCreator \<Rightarrow> Assignment \<Rightarrow> Variable \<Rightarrow> string \<Rightarrow> Variable list \<Rightarrow> error + bool" where
  "check_neighbors self assignment var word [] = Inr True"
| "check_neighbors self assignment var word (neighbor # rest) =
     (case map_of assignment neighbor of
        None \<Rightarrow> check_neighbors self assignment var word rest
      | Some other \<Rightarrow>
          (case overlaps (crossword self) (var, neighbor) of
             None \<Rightarrow> check_neighbors self assignment var word rest
           | Some (i, j) \<Rightarrow>
               if i < length word \<and> j < length other
               then (if word ! i \<noteq> other ! j then Inr False
                     else check_neighbors self assignment var word rest)
               else Inl IndexError))"

text \<open>
  The outer loop of \<open>consistent\<close>, over the items of the dictionary in insertion order
  (the keys of a dictionary are distinct, so \<open>assignment[var]\<close> is the word of the item).
\<close>

fun check_vars ::
  "CrosswordCreator \<Rightarrow> Assignment \<Rightarrow> (Variable \<times> string) list \<Rightarrow> error + bool" where
  "check_vars self assignment [] = Inr True"
| "check_vars self assignment ((var, word) # rest) =
     (if length word \<noteq> var_length var then Inr False
      else (case check_neighbors self assignment var word (neighbors (crossword self) var) of
              Inl e \<Rightarrow> Inl e
            | Inr ok \<Rightarrow> if ok then check_vars self assignment rest else Inr False))"

definition consistent :: "CrosswordCreator \<Rightarrow> Assignment \<Rightarrow> error + bool" where
  "consistent self assignment =
     (if card (set (map snd assignment)) < length assignment then Inr False
      else check_vars self assignment assignment)"

subsection \<open>Sorting with a key\<close>

text \<open>
  Python's \<open>sorted(xs, key=f)\<close> and \<open>xs.sort(key=f)\<close> compute the key of every element
  first, in order (an exception raised by the key function ends the call), and then sort
  the elements by their keys, stably.
\<close>

fun keys_of :: "('a \<Rightarrow> error + 'k) \<Rightarrow> 'a list \<Rightarrow> error + 'k list" where
  "keys_of key [] = Inr []"
| "keys_of key (x # xs) =
     (case key x of
        Inl e \<Rightarrow> Inl e
      | Inr k \<Rightarrow> (case keys_of key xs of Inl e \<Rightarrow> Inl e | Inr ks \<Rightarrow> Inr (k # ks)))"

definition sorted_by :: "('a \<Rightarrow> error + 'k::linorder) \<Rightarrow> 'a list \<Rightarrow> error + 'a list" where
  "sorted_by key xs =
     (case keys_of key xs of
        Inl e \<Rightarrow> Inl e
      | Inr ks \<Rightarrow> Inr (map snd (sort_key fst (zip ks xs))))"

subsection \<open>The ordering heuristics\<close>

text \<open>The innermost loop of \<open>count_conflicts\<close>, over the words of one neighbor's domain.\<close>

fun conflicts_in :: "string \<Rightarrow> nat \<Rightarrow> nat \<Rightarrow> string list \<Rightarrow> error + nat" where
  "conflicts_in value i j [] = Inr 0"
| "conflicts_in value i j (neighbor_word # rest) =
     (if i < length value \<and> j < length neighbor_word
      then (case conflicts_in value i j rest of
              Inl e \<Rightarrow> Inl e
            | Inr c \<Rightarrow> Inr (if value ! i \<noteq> neighbor_word ! j then Suc c else c))
      else Inl IndexError)"

fun count_conflicts_loop ::
  "CrosswordCreator \<Rightarrow> Variable \<Rightarrow> Assignment \<Rightarrow> string \<Rightarrow> Variable list \<Rightarrow> error + nat" where
  "count_conflicts_loop self var assignment value [] = Inr 0"
| "count_conflicts_loop self var assignment value (neighbor # rest) =
     (if neighbor \<in> set (map fst assignment)
      then count_conflicts_loop self var assignment value rest
      else (case overlaps (crossword self) (var, neighbor) of
              None \<Rightarrow> count_conflicts_loop self var assignment value rest
            | Some (i, j) \<Rightarrow>
                (case map_of (domains self) neighbor of
                   None \<Rightarrow> Inl KeyError
                 | Some dn \<Rightarrow>
                     (case conflicts_in value i j dn of
                        Inl e \<Rightarrow> Inl e
                      | Inr c \<Rightarrow>
                          (case count_conflicts_loop self var assignment value rest of
                             Inl e \<Rightarrow> Inl e
                           | Inr c' \<Rightarrow> Inr (c + c'))))))"

definition count_conflicts ::
  "CrosswordCreator \<Rightarrow> Variable \<Rightarrow> Assignment \<Rightarrow> string \<Rightarrow> error + nat" where
  "count_conflicts self var assignment value =
     count_conflicts_loop self var assignment value (neighbors (crossword self) var)"

definition order_domain_values ::
  "CrosswordCreator \<Rightarrow> Variable \<Rightarrow> Assignment \<Rightarrow> error + string list" where
  "order_domain_values self var assignment =
     (case map_of (domains self) var of
        None \<Rightarrow> Inl KeyError
      | Some d \<Rightarrow> sorted_by (count_conflicts self var assignment) d)"

text \<open>The sort key of \<open>select_unassigned_variable\<close>: domain size, then negated degree.\<close>

definition select_key :: "CrosswordCreator \<Rightarrow> Variable \<Rightarrow> error + int \<times> int" where
  "select_key self var =
     (case map_of (domains self) var of
        None \<Rightarrow> Inl KeyError
      | Some d \<Rightarrow> Inr (int (length d), - int (length (neighbors (crossword self) var))))"

definition select_unassigned_variable ::
  "CrosswordCreator \<Rightarrow> Assignment \<Rightarrow> error + Variable option" where
  "select_unassigned_variable self assignment =
     (case sorted_by (select_key self)
             [v \<leftarrow> variables (crossword self). v \<notin> set (map fst assignment)] of
        Inl e \<Rightarrow> Inl e
      | Inr unassigned \<Rightarrow> Inr (case unassigned of [] \<Rightarrow> None | v # _ \<Rightarrow> Some v))"

subsection \<open>Backtracking search\<close>

text \<open>
  What the sort returns when no key raised: the stable sort of the list by the keys.
  The variable that \<open>select_unassigned_variable\<close> returns is an unassigned variable of the
  puzzle, which is what makes the recursion of \<open>backtrack\<close> end.
\<close>

lemma keys_of_Inr:
  "keys_of key xs = Inr ks \<Longrightarrow> ks = map (\<lambda>x. projr (key x)) xs \<and> (\<forall>x\<in>set xs. key x = Inr (projr (key x)))"
  by (induction xs arbitrary: ks) (auto split: sum.splits)

lemma insort_key_map:
  "insort_key h (g x) (map g xs) = map g (insort_key (\<lambda>a. h (g a)) x xs)"
  by (induction xs) auto

lemma sort_key_map: "sort_key h (map g xs) = map g (sort_key (\<lambda>a. h (g a)) xs)"
  by (induction xs) (auto simp: insort_key_map)

lemma sorted_by_Inr:
  assumes "sorted_by key xs = Inr ys"
  shows "ys = sort_key (\<lambda>x. projr (key x)) xs"
proof -
  from assms obtain ks where ks: "keys_of key xs = Inr ks"
    and ys: "ys = map snd (sort_key fst (zip ks xs))"
    by (auto simp: sorted_by_def split: sum.splits)
  have "zip ks xs = map (\<lambda>x. (projr (key x), x)) xs"
    using keys_of_Inr[OF ks] by (simp add: zip_map1 zip_same_conv_map)
  then show ?thesis
    by (simp add: ys sort_key_map comp_def)
qed

lemma set_sorted_by: "sorted_by key xs = Inr ys \<Longrightarrow> set ys = set xs"
  by (drule sorted_by_Inr) simp

lemma select_unassigned_variable_Some:
  assumes "select_unassigned_variable self a = Inr (Some v)"
  shows "v \<in> set (variables (crossword self)) \<and> v \<notin> fst ` set a"
proof -
  from assms obtain ys where
    "sorted_by (select_key self) [v \<leftarrow> variables (crossword self). v \<notin> set (map fst a)] = Inr (v # ys)"
    by (auto simp: select_unassigned_variable_def split: sum.splits list.splits)
  from set_sorted_by[OF this] have "v \<in> set [v \<leftarrow> variables (crossword self). v \<notin> set (map fst a)]"
    by auto
  then show ?thesis by simp
qed

text \<open>The number of variables that an assignment leaves open.\<close>

definition unassigned_count :: "CrosswordCreator \<Rightarrow> Assignment \<Rightarrow> nat" where
  "unassigned_count self a = card (set (variables (crossword self)) - fst ` set a)"

lemma keys_update: "fst ` set (AList.update v w a) = insert v (fst ` set a)"
  using update_keys[of v w a] by (auto simp flip: set_map split: if_splits)

lemma unassigned_count_update:
  "v \<in> set (variables (crossword self)) \<Longrightarrow> v \<notin> fst ` set a \<Longrightarrow>
   unassigned_count self (AList.update v w a) < unassigned_count self a"
  unfolding unassigned_count_def keys_update
  by (intro psubset_card_mono) auto

lemma unassigned_count_update_same:
  "unassigned_count self (AList.update v w a) = unassigned_count self (AList.update v w' a)"
  unfolding unassigned_count_def keys_update ..

text \<open>
  \<open>backtrack\<close> and its loop over the ordered values. When \<open>select_unassigned_variable\<close>
  returns \<open>None\<close>, the lookup \<open>self.domains[None]\<close> in \<open>order_domain_values\<close> raises
  \<open>KeyError\<close>. \<open>new_assignment\<close> is a copy of the dictionary with the new item at its end.
\<close>

function backtrack :: "CrosswordCreator \<Rightarrow> Assignment \<Rightarrow> error + Assignment option"
  and try_values ::
    "CrosswordCreator \<Rightarrow> Assignment \<Rightarrow> Variable \<Rightarrow> string list \<Rightarrow> error + Assignment option"
where
  "backtrack self assignment =
     (if assignment_complete self assignment then Inr (Some assignment)
      else (case select_unassigned_variable self assignment of
              Inl e \<Rightarrow> Inl e
            | Inr None \<Rightarrow> Inl KeyError
            | Inr (Some var) \<Rightarrow>
                (case order_domain_values self var assignment of
                   Inl e \<Rightarrow> Inl e
                 | Inr vals \<Rightarrow> try_values self assignment var vals)))"
| "try_values self assignment var [] = Inr None"
| "try_values self assignment var (val # rest) =
     (let new_assignment = AList.update var val assignment in
      case consistent self new_assignment of
        Inl e \<Rightarrow> Inl e
      | Inr ok \<Rightarrow>
          if ok
          then (case backtrack self new_assignment of
                  Inl e \<Rightarrow> Inl e
                | Inr None \<Rightarrow> try_values self assignment var rest
                | Inr (Some result) \<Rightarrow> Inr (Some result))
          else try_values self assignment var rest)"
  by pat_completeness auto
termination
  apply (relation "measures [\<lambda>p. case p of
              Inl (self, a) \<Rightarrow> 2 * unassigned_count self a + 1
            | Inr (self, a, var, vals) \<Rightarrow> 2 * unassigned_count self (AList.update var [] a) + 2,
           \<lambda>p. case p of Inl _ \<Rightarrow> 0 | Inr (self, a, var, vals) \<Rightarrow> length vals]")
      apply simp
  subgoal for self a x var vals
    using unassigned_count_update[of var self a "[]"] select_unassigned_variable_Some[of self a var]
    by simp
  subgoal for self a var val rest
    using unassigned_count_update_same[of self var val a "[]"] by simp
  subgoal by simp
  subgoal by simp
  done

declare backtrack.simps [simp del]

subsection \<open>The entry point\<close>

text \<open>
  \<open>solve\<close> calls three methods in a row and discards what \<open>ac3\<close> returns. Its model
  records which methods were called, next to the result (or the exception) and the
  state left behind. The result is \<open>None\<close> when the loop of \<open>ac3\<close> does not end.
\<close>

datatype call = Call_enforce_node_consistency | Call_ac3 | Call_backtrack

definition solve ::
  "CrosswordCreator \<Rightarrow> (call list \<times> (error + Assignment option) \<times> CrosswordCreator) option" where
  "solve self =
     (let s1 = enforce_node_consistency self in
      case ac3 s1 None of
        None \<Rightarrow> None
      | Some (Inl e, s2) \<Rightarrow> Some ([Call_enforce_node_consistency, Call_ac3], Inl e, s2)
      | Some (Inr ok, s2) \<Rightarrow>
          Some ([Call_enforce_node_consistency, Call_ac3, Call_backtrack],
                backtrack s2 [], s2))"

declare ac3_loop.simps [code]

section \<open>Vocabulary of the properties\<close>

text \<open>
  \<open>letters_agree w i w' j\<close>: the comparison \<open>w[i] == w'[j]\<close> holds, both letters being
  there. \<open>domain_of self v\<close>: the words of \<open>self.domains[v]\<close>.
\<close>

definition letters_agree :: "string \<Rightarrow> nat \<Rightarrow> string \<Rightarrow> nat \<Rightarrow> bool" where
  "letters_agree w i w' j \<longleftrightarrow> i < length w \<and> j < length w' \<and> w ! i = w' ! j"

definition domain_of :: "CrosswordCreator \<Rightarrow> Variable \<Rightarrow> string list" where
  "domain_of self v = (case map_of (domains self) v of None \<Rightarrow> [] | Some d \<Rightarrow> d)"

text \<open>
  \<open>domains_shrink before after\<close>: the dictionary has the same keys in both states, and
  every domain of \<open>after\<close> is a subset of the same variable's domain in \<open>before\<close>.
  \<open>total_size self\<close>: the number of words in all domains together.
\<close>

definition domains_shrink :: "CrosswordCreator \<Rightarrow> CrosswordCreator \<Rightarrow> bool" where
  "domains_shrink before after \<longleftrightarrow>
     map fst (domains after) = map fst (domains before) \<and>
     (\<forall>v. set (domain_of after v) \<subseteq> set (domain_of before v))"

definition total_size :: "CrosswordCreator \<Rightarrow> nat" where
  "total_size self = sum_list (map (\<lambda>(v, d). length d) (domains self))"

text \<open>
  \<open>overlaps_symmetric cw\<close>: the overlap table is symmetric in content, as the data model
  has it: \<open>overlap(x, y) = (i, j)\<close> implies \<open>overlap(y, x) = (j, i)\<close>.
  \<open>arc_consistent self x y\<close>: every word of the domain of \<open>x\<close> has a word of the domain
  of \<open>y\<close> that agrees with it at their overlap.
  \<open>pending_or_consistent self queue\<close>: every arc from a variable to a neighbor is in
  the queue or arc consistent.
\<close>

definition overlaps_symmetric :: "Crossword \<Rightarrow> bool" where
  "overlaps_symmetric cw \<longleftrightarrow>
     (\<forall>x \<in> set (variables cw). \<forall>y \<in> set (variables cw). \<forall>i j.
        overlaps cw (x, y) = Some (i, j) \<longrightarrow> overlaps cw (y, x) = Some (j, i))"

definition arc_consistent :: "CrosswordCreator \<Rightarrow> Variable \<Rightarrow> Variable \<Rightarrow> bool" where
  "arc_consistent self x y \<longleftrightarrow>
     (\<forall>i j. overlaps (crossword self) (x, y) = Some (i, j) \<longrightarrow>
        (\<forall>w \<in> set (domain_of self x). \<exists>w' \<in> set (domain_of self y). letters_agree w i w' j))"

definition pending_or_consistent :: "CrosswordCreator \<Rightarrow> (Variable \<times> Variable) list \<Rightarrow> bool" where
  "pending_or_consistent self queue \<longleftrightarrow>
     (\<forall>x \<in> set (variables (crossword self)). \<forall>y \<in> set (neighbors (crossword self) x).
        (x, y) \<in> set queue \<or> arc_consistent self x y)"

text \<open>
  \<open>valid_assignment cw a\<close>: the assignment maps every variable of the puzzle to exactly
  one word, the words are pairwise distinct, every word has the length of its
  variable, and every variable agrees with each of its neighbors at their overlap.
\<close>

definition valid_assignment :: "Crossword \<Rightarrow> Assignment \<Rightarrow> bool" where
  "valid_assignment cw a \<longleftrightarrow>
     distinct (map fst a) \<and> set (map fst a) = set (variables cw) \<and>
     distinct (map snd a) \<and>
     (\<forall>(v, w) \<in> set a. length w = var_length v) \<and>
     (\<forall>(x, wx) \<in> set a. \<forall>(y, wy) \<in> set a. \<forall>i j.
        y \<in> set (neighbors cw x) \<longrightarrow> overlaps cw (x, y) = Some (i, j) \<longrightarrow>
        letters_agree wx i wy j)"

text \<open>
  The vocabulary of the completeness proof. A solution is given as a function from
  variables to words; \<open>supports self f\<close> says that the domains still hold its words.
  \<open>node_consistent\<close> is the postcondition of \<open>enforce_node_consistency\<close>, and
  \<open>overlaps_in_bounds\<close> says that the overlap indices of neighbors lie inside the slots.
  \<open>proper_arcs\<close> are arcs between two different variables of the puzzle.
  \<open>solver_invariant\<close> is what propagation maintains, \<open>search_invariant\<close> what the search
  relies on; \<open>partial_assignment\<close> are the assignments that the search builds, and
  \<open>agrees a f\<close> says that the assignment is a part of the solution.
\<close>

definition node_consistent :: "CrosswordCreator \<Rightarrow> bool" where
  "node_consistent self \<longleftrightarrow>
     (\<forall>v. \<forall>w \<in> set (domain_of self v). length w = var_length v)"

definition overlaps_in_bounds :: "Crossword \<Rightarrow> bool" where
  "overlaps_in_bounds cw \<longleftrightarrow>
     (\<forall>x \<in> set (variables cw). \<forall>y \<in> set (neighbors cw x). \<forall>i j.
        overlaps cw (x, y) = Some (i, j) \<longrightarrow> i < var_length x \<and> j < var_length y)"

definition solution :: "Crossword \<Rightarrow> (Variable \<Rightarrow> string) \<Rightarrow> bool" where
  "solution cw f \<longleftrightarrow>
     (\<forall>v \<in> set (variables cw). length (f v) = var_length v) \<and>
     inj_on f (set (variables cw)) \<and>
     (\<forall>x \<in> set (variables cw). \<forall>y \<in> set (neighbors cw x). \<forall>i j.
        overlaps cw (x, y) = Some (i, j) \<longrightarrow> letters_agree (f x) i (f y) j)"

definition supports :: "CrosswordCreator \<Rightarrow> (Variable \<Rightarrow> string) \<Rightarrow> bool" where
  "supports self f \<longleftrightarrow>
     (\<forall>v \<in> set (variables (crossword self)). f v \<in> set (domain_of self v))"

definition proper_arcs :: "Crossword \<Rightarrow> (Variable \<times> Variable) list \<Rightarrow> bool" where
  "proper_arcs cw queue \<longleftrightarrow>
     (\<forall>(x, y) \<in> set queue. x \<in> set (variables cw) \<and> y \<in> set (variables cw) \<and> x \<noteq> y)"

definition solver_invariant :: "(Variable \<Rightarrow> string) \<Rightarrow> CrosswordCreator \<Rightarrow> bool" where
  "solver_invariant f self \<longleftrightarrow>
     fst ` set (domains self) = set (variables (crossword self)) \<and>
     node_consistent self \<and> solution (crossword self) f \<and> supports self f"

definition partial_assignment :: "Crossword \<Rightarrow> Assignment \<Rightarrow> bool" where
  "partial_assignment cw a \<longleftrightarrow>
     distinct (map fst a) \<and> fst ` set a \<subseteq> set (variables cw) \<and>
     (\<forall>(v, w) \<in> set a. length w = var_length v)"

definition agrees :: "Assignment \<Rightarrow> (Variable \<Rightarrow> string) \<Rightarrow> bool" where
  "agrees a f \<longleftrightarrow> (\<forall>(v, w) \<in> set a. f v = w)"

definition search_invariant :: "CrosswordCreator \<Rightarrow> bool" where
  "search_invariant self \<longleftrightarrow>
     set (variables (crossword self)) \<subseteq> fst ` set (domains self) \<and>
     node_consistent self \<and> overlaps_in_bounds (crossword self)"

text \<open>
  Scenario B of the specification: a three-letter across slot whose middle letter is the
  first letter of a three-letter down slot.
\<close>

definition slot_across :: Variable where "slot_across = Variable 0 0 ACROSS 3"
definition slot_down :: Variable where "slot_down = Variable 0 1 DOWN 3"

definition scenario_B :: Crossword where
  "scenario_B =
     \<lparr>variables = [slot_across, slot_down], words = [''cat'', ''ace'', ''tie''],
      overlaps = map_of [((slot_across, slot_down), (1, 0)), ((slot_down, slot_across), (0, 1))]\<rparr>"

text \<open>
  A puzzle that propagation alone refutes: a two-letter across slot and a three-letter
  down slot share their first cell, and the two words of the list start with different
  letters.
\<close>

definition across2 :: Variable where "across2 = Variable 0 0 ACROSS 2"
definition down3 :: Variable where "down3 = Variable 0 0 DOWN 3"

definition scenario_D :: Crossword where
  "scenario_D =
     \<lparr>variables = [across2, down3], words = [''ab'', ''cde''],
      overlaps = map_of [((across2, down3), (0, 0)), ((down3, across2), (0, 0))]\<rparr>"

text \<open>
  The same grid with three words: after node consistency the down slot has one
  candidate and the across slot has two.
\<close>

definition scenario_M :: Crossword where
  "scenario_M =
     \<lparr>variables = [across2, down3], words = [''ab'', ''ad'', ''abc''],
      overlaps = map_of [((across2, down3), (0, 0)), ((down3, across2), (0, 0))]\<rparr>"

section \<open>Node consistency\<close>

lemmas scenario_D_defs = scenario_D_def across2_def down3_def

lemma domain_of_update:
  "domain_of (self\<lparr>domains := AList.update x d (domains self)\<rparr>) v =
     (if v = x then d else domain_of self v)"
  by (simp add: domain_of_def update_conv')

lemma map_of_map_values:
  "map_of (map (\<lambda>(k, v). (k, f k v)) xs) k = map_option (f k) (map_of xs k)"
  by (induction xs) auto

lemma map_fst_map_values: "map fst (map (\<lambda>(k, v). (k, f k v)) xs) = map fst xs"
  by (induction xs) auto

lemma enforce_node_consistency_lookup:
  "map_of (domains (enforce_node_consistency self)) v =
     map_option (filter (\<lambda>word. length word = var_length v)) (map_of (domains self) v)"
  unfolding enforce_node_consistency_def by (simp add: map_of_map_values)

lemma enforce_node_consistency_keys:
  "map fst (domains (enforce_node_consistency self)) = map fst (domains self)"
  unfolding enforce_node_consistency_def by (simp add: case_prod_beta)

lemma enforce_node_consistency_crossword:
  "crossword (enforce_node_consistency self) = crossword self"
  unfolding enforce_node_consistency_def by simp

text \<open>
  Claim C6. After \<open>enforce_node_consistency\<close> the dictionary has the same keys, and for
  every variable \<open>v\<close> with a domain: every word left in the domain of \<open>v\<close> has the length
  of \<open>v\<close>, no word was added, and the words removed are exactly the words of the old
  domain whose length differs from the length of \<open>v\<close>.
\<close>

theorem enforce_node_consistency_post:
  "map fst (domains (enforce_node_consistency self)) = map fst (domains self) \<and>
   (\<forall>ws. map_of (domains self) v = Some ws \<longrightarrow>
      (\<exists>ws'. map_of (domains (enforce_node_consistency self)) v = Some ws' \<and>
         (\<forall>w \<in> set ws'. length w = var_length v) \<and>
         set ws' \<subseteq> set ws \<and>
         set ws - set ws' = {w \<in> set ws. length w \<noteq> var_length v}))"
proof (intro conjI allI impI)
  show "map fst (domains (enforce_node_consistency self)) = map fst (domains self)"
    by (rule enforce_node_consistency_keys)
next
  fix ws assume ws: "map_of (domains self) v = Some ws"
  let ?ws' = "[word \<leftarrow> ws. length word = var_length v]"
  have "map_of (domains (enforce_node_consistency self)) v = Some ?ws'"
    by (simp add: enforce_node_consistency_lookup ws)
  moreover have "\<forall>w \<in> set ?ws'. length w = var_length v" by simp
  moreover have "set ?ws' \<subseteq> set ws" by auto
  moreover have "set ws - set ?ws' = {w \<in> set ws. length w \<noteq> var_length v}" by auto
  ultimately show "\<exists>ws'. map_of (domains (enforce_node_consistency self)) v = Some ws' \<and>
         (\<forall>w \<in> set ws'. length w = var_length v) \<and>
         set ws' \<subseteq> set ws \<and>
         set ws - set ws' = {w \<in> set ws. length w \<noteq> var_length v}"
    by blast
qed

theorem enforce_node_consistency_post_witness:
  "map_of (domains (init scenario_D)) across2 = Some [''ab'', ''cde''] \<and>
   map_of (domains (enforce_node_consistency (init scenario_D))) across2 = Some [''ab'']"
  using enforce_node_consistency_post[of "init scenario_D" across2]
  by (simp add: enforce_node_consistency_def init_def scenario_D_defs)

section \<open>Revising one arc\<close>

lemma any_match_Inr:
  "any_match word i j dy = Inr found \<Longrightarrow> found = (\<exists>other \<in> set dy. letters_agree word i other j)"
  by (induction dy) (auto simp: letters_agree_def split: if_splits)

lemma to_remove_of_Inr:
  "to_remove_of self y i j dx = Inr to_remove \<Longrightarrow>
     to_remove = [w \<leftarrow> dx. \<not> (\<exists>other \<in> set (domain_of self y). letters_agree w i other j)]"
proof (induction dx arbitrary: to_remove)
  case Nil
  then show ?case by simp
next
  case (Cons word rest)
  then show ?case
    by (auto simp: domain_of_def split: option.splits sum.splits dest!: any_match_Inr)
qed

lemma filter_not_in_filter: "[w \<leftarrow> xs. w \<notin> set [w \<leftarrow> xs. \<not> P w]] = [w \<leftarrow> xs. P w]"
  by (rule filter_cong) auto

lemma revise_cases:
  assumes "revise self x y = (out, self')"
  obtains (no_overlap) "overlaps (crossword self) (x, y) = None" "out = Inr False" "self' = self"
  | (raised) e where "out = Inl e" "self' = self"
  | (unchanged) i j dx where "overlaps (crossword self) (x, y) = Some (i, j)"
      "map_of (domains self) x = Some dx"
      "\<forall>w \<in> set dx. \<exists>other \<in> set (domain_of self y). letters_agree w i other j"
      "out = Inr False" "self' = self"
  | (revised) i j dx where "overlaps (crossword self) (x, y) = Some (i, j)"
      "map_of (domains self) x = Some dx"
      "\<exists>w \<in> set dx. \<not> (\<exists>other \<in> set (domain_of self y). letters_agree w i other j)"
      "out = Inr True"
      "self' = self\<lparr>domains := AList.update x
           [w \<leftarrow> dx. \<exists>other \<in> set (domain_of self y). letters_agree w i other j] (domains self)\<rparr>"
proof (cases "overlaps (crossword self) (x, y)")
  case None
  with assms show ?thesis by (intro no_overlap) (auto simp: revise_def)
next
  case (Some ij)
  obtain i j where ij: "ij = (i, j)" by (cases ij)
  show ?thesis
  proof (cases "map_of (domains self) x")
    case None
    with assms Some ij show ?thesis by (intro raised[of KeyError]) (auto simp: revise_def)
  next
    case dx: (Some dx)
    show ?thesis
    proof (cases "to_remove_of self y i j dx")
      case (Inl e)
      with assms Some ij dx show ?thesis by (intro raised[of e]) (auto simp: revise_def)
    next
      case (Inr to_remove)
      note tr = to_remove_of_Inr[OF Inr]
      show ?thesis
      proof (cases "to_remove = []")
        case True
        from tr True
        have "[w \<leftarrow> dx. \<not> (\<exists>other \<in> set (domain_of self y). letters_agree w i other j)] = []"
          by simp
        then have "\<forall>w \<in> set dx. \<exists>other \<in> set (domain_of self y). letters_agree w i other j"
          unfolding filter_empty_conv by blast
        moreover from assms Some ij dx Inr True have "out = Inr False" "self' = self"
          by (auto simp: revise_def)
        ultimately show ?thesis using Some ij dx by (intro unchanged) auto
      next
        case False
        from tr False
        have "[w \<leftarrow> dx. \<not> (\<exists>other \<in> set (domain_of self y). letters_agree w i other j)] \<noteq> []"
          by simp
        then have "\<exists>w \<in> set dx. \<not> (\<exists>other \<in> set (domain_of self y). letters_agree w i other j)"
          unfolding filter_empty_conv by blast
        moreover from assms Some ij dx Inr False have "out = Inr True"
          "self' = self\<lparr>domains := AList.update x [w \<leftarrow> dx. w \<notin> set to_remove] (domains self)\<rparr>"
          by (auto simp: revise_def)
        moreover have "[w \<leftarrow> dx. w \<notin> set to_remove] =
            [w \<leftarrow> dx. \<exists>other \<in> set (domain_of self y). letters_agree w i other j]"
          unfolding tr by (rule filter_not_in_filter)
        ultimately show ?thesis using Some ij dx by (intro revised) auto
      qed
    qed
  qed
qed

text \<open>
  Claim C5. When \<open>revise(x, y)\<close> returns: if \<open>x\<close> and \<open>y\<close> have no overlap, nothing changed
  and the result is false; if their overlap is \<open>(i, j)\<close>, the new domain of \<open>x\<close> is the old
  one without exactly the words \<open>w\<close> for which no word \<open>w'\<close> of the domain of \<open>y\<close> has
  \<open>w[i] == w'[j]\<close>, and the result is true iff there was such a word.
\<close>

theorem revise_contract:
  assumes "revise self x y = (Inr revised, self')"
  shows "(overlaps (crossword self) (x, y) = None \<longrightarrow> \<not> revised \<and> self' = self) \<and>
         (\<forall>i j. overlaps (crossword self) (x, y) = Some (i, j) \<longrightarrow>
            domain_of self' x =
              [w \<leftarrow> domain_of self x.
                 \<exists>other \<in> set (domain_of self y). letters_agree w i other j] \<and>
            revised =
              (\<exists>w \<in> set (domain_of self x).
                 \<not> (\<exists>other \<in> set (domain_of self y). letters_agree w i other j)))"
  using assms
proof (cases rule: revise_cases)
  case no_overlap
  then show ?thesis by simp
next
  case (raised e)
  then show ?thesis by simp
next
  case (unchanged i j dx)
  then have "domain_of self x = dx" by (simp add: domain_of_def)
  with unchanged show ?thesis by (auto intro: filter_True[symmetric])
next
  case (revised i j dx)
  then have "domain_of self x = dx" by (simp add: domain_of_def)
  with revised show ?thesis by (simp add: domain_of_update)
qed

theorem revise_contract_witness:
  "revise (enforce_node_consistency (init scenario_D)) across2 down3 =
     (Inr True, \<lparr>crossword = scenario_D, domains = [(across2, []), (down3, [''cde''])]\<rparr>) \<and>
   domain_of (enforce_node_consistency (init scenario_D)) across2 = [''ab''] \<and>
   domain_of \<lparr>crossword = scenario_D, domains = [(across2, []), (down3, [''cde''])]\<rparr> across2 = []"
proof -
  have h: "revise (enforce_node_consistency (init scenario_D)) across2 down3 =
     (Inr True, \<lparr>crossword = scenario_D, domains = [(across2, []), (down3, [''cde''])]\<rparr>)"
    by (simp add: revise_def enforce_node_consistency_def init_def scenario_D_defs)
  have o: "overlaps (crossword (enforce_node_consistency (init scenario_D))) (across2, down3) = Some (0, 0)"
    by (simp add: enforce_node_consistency_def init_def scenario_D_defs)
  from revise_contract[OF h] o h show ?thesis
    by (simp add: domain_of_def enforce_node_consistency_def init_def scenario_D_defs)
qed

text \<open>
  Claim C10. Whatever \<open>revise(x, y)\<close> does (return or raise), it leaves the puzzle
  description and the keys of the dictionary as they were, and the domain of every
  variable other than \<open>x\<close> unchanged.
\<close>

theorem revise_frame:
  assumes "revise self x y = (out, self')"
  shows "crossword self' = crossword self \<and>
         map fst (domains self') = map fst (domains self) \<and>
         (\<forall>v. v \<noteq> x \<longrightarrow> map_of (domains self') v = map_of (domains self) v)"
  using assms
proof (cases rule: revise_cases)
  case (revised i j dx)
  then have "x \<in> set (map fst (domains self))"
    by (metis domIff dom_map_of_conv_image_fst option.distinct(1) set_map)
  with revised show ?thesis by (simp add: update_keys update_conv')
qed simp_all

theorem revise_frame_witness:
  "map_of (domains (snd (revise (enforce_node_consistency (init scenario_D)) across2 down3))) down3
     = Some [''cde''] \<and>
   map_of (domains (enforce_node_consistency (init scenario_D))) down3 = Some [''cde''] \<and>
   map_of (domains (snd (revise (enforce_node_consistency (init scenario_D)) across2 down3))) across2
     \<noteq> map_of (domains (enforce_node_consistency (init scenario_D))) across2"
proof -
  obtain out s' where h: "revise (enforce_node_consistency (init scenario_D)) across2 down3 = (out, s')"
    by (cases "revise (enforce_node_consistency (init scenario_D)) across2 down3")
  have ne: "down3 \<noteq> across2" by (simp add: scenario_D_defs)
  from revise_frame[OF h] ne
  have "map_of (domains (snd (revise (enforce_node_consistency (init scenario_D)) across2 down3))) down3
     = map_of (domains (enforce_node_consistency (init scenario_D))) down3"
    by (simp add: h)
  then show ?thesis
    by (simp add: revise_def enforce_node_consistency_def init_def scenario_D_defs)
qed

section \<open>AC-3\<close>

lemma domains_shrink_refl: "domains_shrink s s"
  by (simp add: domains_shrink_def)

lemma domains_shrink_trans:
  "domains_shrink s1 s2 \<Longrightarrow> domains_shrink s2 s3 \<Longrightarrow> domains_shrink s1 s3"
  unfolding domains_shrink_def by (auto dest: subsetD)

lemma map_of_key: "map_of al x = Some d \<Longrightarrow> x \<in> fst ` set al"
  by (induction al) (auto split: if_splits)

lemma revise_crossword:
  assumes "revise self x y = (out, self')"
  shows "crossword self' = crossword self"
  using assms by (cases rule: revise_cases) simp_all

lemma revise_keys:
  assumes "revise self x y = (out, self')"
  shows "map fst (domains self') = map fst (domains self)"
  using assms by (cases rule: revise_cases) (simp_all add: update_keys map_of_key)

lemma revise_other:
  assumes "revise self x y = (out, self')" "v \<noteq> x"
  shows "map_of (domains self') v = map_of (domains self) v"
  using assms(1)
proof (cases rule: revise_cases)
  case (revised i j dx)
  with assms(2) show ?thesis by (simp add: update_conv')
qed simp_all

lemma revise_subset:
  assumes "revise self x y = (out, self')"
  shows "set (domain_of self' v) \<subseteq> set (domain_of self v)"
  using assms
proof (cases rule: revise_cases)
  case (revised i j dx)
  then have "domain_of self x = dx" by (simp add: domain_of_def)
  with revised show ?thesis by (auto simp: domain_of_update)
qed simp_all

lemma revise_shrink: "revise self x y = (out, self') \<Longrightarrow> domains_shrink self self'"
  by (simp add: domains_shrink_def revise_keys revise_subset)

lemma revise_not_True:
  assumes "revise self x y = (out, self')" "out \<noteq> Inr True"
  shows "self' = self"
  using assms(1)
proof (cases rule: revise_cases)
  case (revised i j dx)
  with assms(2) show ?thesis by simp
qed simp_all

lemma sum_list_update_less:
  "map_of al x = Some d \<Longrightarrow> length d' < length d \<Longrightarrow>
     sum_list (map (\<lambda>(v, d). length d) (AList.update x d' al)) <
     sum_list (map (\<lambda>(v, d). length d) al)"
  by (induction al) (auto split: if_splits)

lemma filter_length_less: "\<exists>w \<in> set xs. \<not> P w \<Longrightarrow> length (filter P xs) < length xs"
  by (metis length_filter_less)

lemma revise_True_less:
  assumes "revise self x y = (Inr True, self')"
  shows "total_size self' < total_size self"
  using assms
proof (cases rule: revise_cases)
  case (revised i j dx)
  then show ?thesis
    by (simp add: total_size_def sum_list_update_less filter_length_less)
qed simp_all

lemma ac3_loop_terminates: "\<exists>r. ac3_loop self queue = Some r"
proof (induction "total_size self" arbitrary: self queue rule: less_induct)
  case less
  show ?case
  proof (induction queue rule: length_induct)
    case (1 queue)
    show ?case
    proof (cases queue)
      case Nil
      then show ?thesis by (simp add: ac3_loop.simps)
    next
      case (Cons arc rest)
      obtain x y where arc: "arc = (x, y)" by (cases arc)
      obtain out s1 where rev: "revise self x y = (out, s1)" by (cases "revise self x y")
      show ?thesis
      proof (cases "out = Inr True")
        case True
        with rev have "total_size s1 < total_size self" by (simp add: revise_True_less)
        from less[OF this] obtain r where
          "ac3_loop s1 (rest @ map (\<lambda>z. (z, x)) (removeAll y (neighbors (crossword s1) x))) = Some r"
          by blast
        with Cons arc rev True show ?thesis
          by (subst ac3_loop.simps) (simp split: option.splits)
      next
        case False
        with rev have same: "s1 = self" by (rule revise_not_True)
        from 1 Cons obtain r where "ac3_loop self rest = Some r" by auto
        with Cons arc rev False same show ?thesis
          by (subst ac3_loop.simps) (auto split: sum.splits)
      qed
    qed
  qed
qed

text \<open>
  Claim C7. \<open>ac3\<close> terminates, from every state and with every list of arcs: the loop
  returns a result or raises, after finitely many iterations. Every iteration either
  leaves the domains alone and shortens the queue, or removes a word from a domain.
\<close>

theorem ac3_terminates: "\<exists>out self'. ac3 self arcs = Some (out, self')"
proof -
  obtain r where "ac3 self arcs = Some r"
    using ac3_loop_terminates[of self] unfolding ac3_def by blast
  then show ?thesis by (cases r) auto
qed

lemma revise_True_domain:
  assumes "revise self x y = (Inr True, self')"
  shows "\<exists>dx. map_of (domains self') x = Some dx"
  using assms by (cases rule: revise_cases) (simp_all add: update_conv')

lemma ac3_loop_induct [consumes 1, case_names empty raised emptied requeue unchanged]:
  assumes run: "ac3_loop self queue = Some r"
    and empty: "\<And>self. P self [] (Inr True, self)"
    and raised: "\<And>self x y rest e s1.
        revise self x y = (Inl e, s1) \<Longrightarrow> P self ((x, y) # rest) (Inl e, s1)"
    and emptied: "\<And>self x y rest s1.
        revise self x y = (Inr True, s1) \<Longrightarrow> map_of (domains s1) x = Some [] \<Longrightarrow>
        P self ((x, y) # rest) (Inr False, s1)"
    and requeue: "\<And>self x y rest s1 dx r.
        revise self x y = (Inr True, s1) \<Longrightarrow> map_of (domains s1) x = Some dx \<Longrightarrow> dx \<noteq> [] \<Longrightarrow>
        P s1 (rest @ map (\<lambda>z. (z, x)) (removeAll y (neighbors (crossword s1) x))) r \<Longrightarrow>
        P self ((x, y) # rest) r"
    and unchanged: "\<And>self x y rest r.
        revise self x y = (Inr False, self) \<Longrightarrow> P self rest r \<Longrightarrow> P self ((x, y) # rest) r"
  shows "P self queue r"
proof (rule ac3_loop.raw_induct[where P = P, OF _ run], goal_cases)
  case (1 f self queue r)
  show ?case
  proof (cases queue)
    case Nil
    with 1(2) empty show ?thesis by auto
  next
    case (Cons arc rest)
    obtain x y where arc: "arc = (x, y)" by (cases arc)
    obtain out s1 where rev: "revise self x y = (out, s1)" by (cases "revise self x y")
    show ?thesis
    proof (cases out)
      case (Inl e)
      with 1(2) Cons arc rev have "r = (Inl e, s1)" by simp
      with raised[of self x y e s1 rest] rev Inl Cons arc show ?thesis by simp
    next
      case (Inr revised)
      show ?thesis
      proof (cases revised)
        case True
        with rev Inr have rev': "revise self x y = (Inr True, s1)" by simp
        from revise_True_domain[OF rev'] obtain dx where dx: "map_of (domains s1) x = Some dx" ..
        show ?thesis
        proof (cases "dx = []")
          case True
          with 1(2) Cons arc rev' dx have "r = (Inr False, s1)" by simp
          with emptied[OF rev', of rest] dx True Cons arc show ?thesis by simp
        next
          case False
          with 1(2) Cons arc rev' dx
          have "f s1 (rest @ map (\<lambda>z. (z, x)) (removeAll y (neighbors (crossword s1) x))) = Some r"
            by simp
          from 1(1)[OF this] requeue[OF rev' dx False] Cons arc show ?thesis by simp
        qed
      next
        case False
        with rev Inr have rev': "revise self x y = (Inr False, s1)" by simp
        then have same: "s1 = self" by (cases rule: revise_cases) simp_all
        from 1(2) Cons arc rev' have "f s1 rest = Some r" by simp
        from 1(1)[OF this] unchanged[of self x y rest r] rev' same Cons arc show ?thesis by simp
      qed
    qed
  qed
qed

lemma ac3_loop_shrink:
  assumes "ac3_loop self queue = Some r"
  shows "domains_shrink self (snd r)"
  using assms
proof (induction rule: ac3_loop_induct)
  case (requeue self x y rest s1 dx r)
  then show ?case by (blast intro: domains_shrink_trans revise_shrink)
qed (simp_all add: domains_shrink_refl revise_shrink)

lemma enforce_node_consistency_shrink: "domains_shrink self (enforce_node_consistency self)"
  by (auto simp: domains_shrink_def enforce_node_consistency_keys domain_of_def
      enforce_node_consistency_lookup split: option.splits)

text \<open>
  Claim C9. \<open>enforce_node_consistency\<close>, \<open>revise\<close> and \<open>ac3\<close> only remove words: whatever
  they do, the dictionary keeps its keys and every domain afterwards is a subset of
  the domain before.
\<close>

theorem domains_only_shrink:
  "domains_shrink self (enforce_node_consistency self) \<and>
   (\<forall>x y out self'. revise self x y = (out, self') \<longrightarrow> domains_shrink self self') \<and>
   (\<forall>arcs out self'. ac3 self arcs = Some (out, self') \<longrightarrow> domains_shrink self self')"
proof (intro conjI allI impI)
  show "domains_shrink self (enforce_node_consistency self)"
    by (rule enforce_node_consistency_shrink)
next
  fix x y out self' assume "revise self x y = (out, self')"
  then show "domains_shrink self self'" by (rule revise_shrink)
next
  fix arcs out self' assume "ac3 self arcs = Some (out, self')"
  then show "domains_shrink self self'"
    unfolding ac3_def by (drule_tac ac3_loop_shrink) simp
qed

theorem domains_only_shrink_witness:
  "ac3 (enforce_node_consistency (init scenario_D)) None =
     Some (Inr False, \<lparr>crossword = scenario_D, domains = [(across2, []), (down3, [''cde''])]\<rparr>) \<and>
   domains_shrink (enforce_node_consistency (init scenario_D))
     \<lparr>crossword = scenario_D, domains = [(across2, []), (down3, [''cde''])]\<rparr> \<and>
   domains_shrink (init scenario_D) (enforce_node_consistency (init scenario_D)) \<and>
   domain_of (init scenario_D) across2 = [''ab'', ''cde'']"
proof -
  have h: "ac3 (enforce_node_consistency (init scenario_D)) None =
     Some (Inr False, \<lparr>crossword = scenario_D, domains = [(across2, []), (down3, [''cde''])]\<rparr>)"
    by (simp add: ac3_def ac3_loop.simps revise_def neighbors_def enforce_node_consistency_def
        init_def scenario_D_defs)
  from domains_only_shrink[of "enforce_node_consistency (init scenario_D)"] h
  have "domains_shrink (enforce_node_consistency (init scenario_D))
     \<lparr>crossword = scenario_D, domains = [(across2, []), (down3, [''cde''])]\<rparr>"
    by blast
  moreover from domains_only_shrink[of "init scenario_D"]
  have "domains_shrink (init scenario_D) (enforce_node_consistency (init scenario_D))"
    by blast
  moreover have "domain_of (init scenario_D) across2 = [''ab'', ''cde'']"
    by (simp add: domain_of_def init_def scenario_D_defs)
  ultimately show ?thesis using h by simp
qed

section \<open>Selecting a variable\<close>

lemma keys_of_total:
  "(\<forall>x \<in> set xs. \<exists>k. key x = Inr k) \<Longrightarrow> \<exists>ks. keys_of key xs = Inr ks"
  by (induction xs) (auto split: sum.splits)

lemma sorted_by_total:
  assumes "\<forall>x \<in> set xs. \<exists>k. key x = Inr k"
  shows "sorted_by key xs = Inr (sort_key (\<lambda>x. projr (key x)) xs)"
proof -
  from keys_of_total[OF assms] obtain ys where "sorted_by key xs = Inr ys"
    by (auto simp: sorted_by_def)
  with sorted_by_Inr[OF this] show ?thesis by simp
qed

lemma sort_key_head_least:
  assumes "sort_key f xs = y # ys" "x \<in> set xs"
  shows "f y \<le> f x"
proof -
  have "sorted (map f (y # ys))" using sorted_sort_key[of f xs] assms(1) by simp
  moreover have "x \<in> set (y # ys)" using assms by (metis set_sort)
  ultimately show ?thesis by auto
qed

lemma select_key_Some:
  "map_of (domains self) v = Some d \<Longrightarrow>
     select_key self v = Inr (int (length d), - int (length (neighbors (crossword self) v)))"
  by (simp add: select_key_def)

lemma key_has_domain: "x \<in> fst ` set al \<Longrightarrow> \<exists>d. map_of al x = Some d"
  by (metis domD dom_map_of_conv_image_fst)

lemma select_unassigned_variable_least:
  assumes keys: "set (variables (crossword self)) \<subseteq> fst ` set (domains self)"
    and u: "u \<in> set (variables (crossword self))" "u \<notin> fst ` set assignment"
  shows "\<exists>v. select_unassigned_variable self assignment = Inr (Some v) \<and>
           v \<in> set (variables (crossword self)) \<and> v \<notin> fst ` set assignment \<and>
           (length (domain_of self v) < length (domain_of self u) \<or>
            length (domain_of self v) = length (domain_of self u) \<and>
            length (neighbors (crossword self) u) \<le> length (neighbors (crossword self) v))"
proof -
  let ?U = "[v \<leftarrow> variables (crossword self). v \<notin> set (map fst assignment)]"
  let ?f = "\<lambda>x. projr (select_key self x)"
  have dom: "\<exists>d. map_of (domains self) x = Some d" if "x \<in> set (variables (crossword self))" for x
    using keys that by (blast intro: key_has_domain)
  have key: "select_key self x =
      Inr (int (length (domain_of self x)), - int (length (neighbors (crossword self) x)))"
    if "x \<in> set (variables (crossword self))" for x
    using dom[OF that] by (auto simp: select_key_Some domain_of_def)
  have "\<forall>x \<in> set ?U. \<exists>k. select_key self x = Inr k"
    using key by simp
  from sorted_by_total[OF this]
  have sb: "sorted_by (select_key self) ?U = Inr (sort_key ?f ?U)" .
  have uU: "u \<in> set ?U" using u by simp
  then have "sort_key ?f ?U \<noteq> []" by (metis empty_iff set_empty set_sort)
  then obtain v rest where vr: "sort_key ?f ?U = v # rest" by (cases "sort_key ?f ?U") auto
  have "v \<in> set ?U" by (metis vr list.set_intros(1) set_sort)
  then have v: "v \<in> set (variables (crossword self))" "v \<notin> fst ` set assignment" by auto
  have sel: "select_unassigned_variable self assignment = Inr (Some v)"
    unfolding select_unassigned_variable_def sb vr by simp
  have "?f v \<le> ?f u" using vr uU by (rule sort_key_head_least)
  then have "length (domain_of self v) < length (domain_of self u) \<or>
            length (domain_of self v) = length (domain_of self u) \<and>
            length (neighbors (crossword self) u) \<le> length (neighbors (crossword self) v)"
    by (auto simp: key[OF v(1)] key[OF u(1)] less_eq_prod_def)
  with sel v show ?thesis by blast
qed

text \<open>
  Claim C8. When every variable of the puzzle has a domain, and the assignment is a
  non-complete assignment of variables of the puzzle, \<open>select_unassigned_variable\<close>
  returns an unassigned variable whose domain is smallest among the unassigned
  variables and, among those with a smallest domain, whose number of neighbors is
  largest.
\<close>

theorem select_unassigned_variable_mrv_degree:
  assumes "set (variables (crossword self)) \<subseteq> fst ` set (domains self)"
    and "fst ` set assignment \<subseteq> set (variables (crossword self))"
    and "\<not> assignment_complete self assignment"
  shows "\<exists>v. select_unassigned_variable self assignment = Inr (Some v) \<and>
           v \<in> set (variables (crossword self)) \<and> v \<notin> fst ` set assignment \<and>
           (\<forall>u \<in> set (variables (crossword self)) - fst ` set assignment.
              length (domain_of self v) \<le> length (domain_of self u) \<and>
              (length (domain_of self u) = length (domain_of self v) \<longrightarrow>
               length (neighbors (crossword self) u) \<le> length (neighbors (crossword self) v)))"
proof -
  from assms(2,3) obtain u0 where u0: "u0 \<in> set (variables (crossword self))" "u0 \<notin> fst ` set assignment"
    by (auto simp: assignment_complete_def)
  from select_unassigned_variable_least[OF assms(1) u0] obtain v where
    v: "select_unassigned_variable self assignment = Inr (Some v)"
       "v \<in> set (variables (crossword self))" "v \<notin> fst ` set assignment"
    by blast
  have "length (domain_of self v) \<le> length (domain_of self u) \<and>
        (length (domain_of self u) = length (domain_of self v) \<longrightarrow>
         length (neighbors (crossword self) u) \<le> length (neighbors (crossword self) v))"
    if "u \<in> set (variables (crossword self)) - fst ` set assignment" for u
    using select_unassigned_variable_least[OF assms(1), of u assignment] that v(1) by auto
  with v show ?thesis by blast
qed

theorem select_unassigned_variable_mrv_degree_witness:
  "set (variables (crossword (enforce_node_consistency (init scenario_M))))
     \<subseteq> fst ` set (domains (enforce_node_consistency (init scenario_M))) \<and>
   \<not> assignment_complete (enforce_node_consistency (init scenario_M)) [] \<and>
   domains (enforce_node_consistency (init scenario_M)) =
     [(across2, [''ab'', ''ad'']), (down3, [''abc''])] \<and>
   select_unassigned_variable (enforce_node_consistency (init scenario_M)) [] = Inr (Some down3)"
proof -
  have a: "set (variables (crossword (enforce_node_consistency (init scenario_M))))
     \<subseteq> fst ` set (domains (enforce_node_consistency (init scenario_M)))"
    by code_simp
  have b: "fst ` set ([] :: Assignment)
     \<subseteq> set (variables (crossword (enforce_node_consistency (init scenario_M))))"
    by simp
  have c: "\<not> assignment_complete (enforce_node_consistency (init scenario_M)) []"
    by code_simp
  have d: "domains (enforce_node_consistency (init scenario_M)) =
     [(across2, [''ab'', ''ad'']), (down3, [''abc''])]"
    by code_simp
  have e: "select_unassigned_variable (enforce_node_consistency (init scenario_M)) [] =
     Inr (Some down3)"
    by code_simp
  from select_unassigned_variable_mrv_degree[OF a b c] a c d e show ?thesis by blast
qed

section \<open>The entry point after a failed propagation\<close>

lemma ac3_loop_crossword:
  assumes "ac3_loop self queue = Some r"
  shows "crossword (snd r) = crossword self"
  using assms
proof (induction rule: ac3_loop_induct)
  case (raised self x y rest e s1)
  then show ?case by (simp add: revise_crossword[of self x y "Inl e" s1])
next
  case (emptied self x y rest s1)
  then show ?case by (simp add: revise_crossword[of self x y "Inr True" s1])
next
  case (requeue self x y rest s1 dx r)
  then show ?case by (simp add: revise_crossword[of self x y "Inr True" s1])
qed simp_all

lemma ac3_loop_False_emptied:
  assumes "ac3_loop self queue = Some r" "fst r = Inr False"
  shows "\<exists>x. map_of (domains (snd r)) x = Some []"
  using assms by (induction rule: ac3_loop_induct) auto

lemma backtrack_empty_domain:
  assumes keys: "fst ` set (domains self) = set (variables (crossword self))"
    and x: "map_of (domains self) x = Some []"
  shows "backtrack self [] = Inr None"
proof -
  have xv: "x \<in> set (variables (crossword self))"
    using map_of_key[OF x] keys by simp
  then have nc: "\<not> assignment_complete self []"
    by (auto simp: assignment_complete_def)
  have "domain_of self x = []" using x by (simp add: domain_of_def)
  with select_unassigned_variable_least[of self x "[]"] keys xv
  obtain v where sel: "select_unassigned_variable self [] = Inr (Some v)"
    and v: "v \<in> set (variables (crossword self))" and d: "domain_of self v = []"
    by auto
  from v keys have "v \<in> fst ` set (domains self)" by simp
  from key_has_domain[OF this] obtain d' where "map_of (domains self) v = Some d'" ..
  with d have "map_of (domains self) v = Some []" by (simp add: domain_of_def)
  then have odv: "order_domain_values self v [] = Inr []"
    by (simp add: order_domain_values_def sorted_by_def)
  show ?thesis
    by (subst backtrack.simps) (simp add: nc sel odv)
qed

text \<open>
  Claim C1, as the code has it. When every variable of the puzzle has a domain and
  \<open>ac3\<close> reports an emptied domain during \<open>solve\<close>, then \<open>solve\<close> returns the failure
  signal. It does not short-circuit: it discards what \<open>ac3\<close> returned and calls
  \<open>backtrack\<close> on the empty assignment, which fails.
\<close>

theorem solve_fails_when_ac3_reports_failure:
  assumes "fst ` set (domains self) = set (variables (crossword self))"
    and "ac3 (enforce_node_consistency self) None = Some (Inr False, self')"
  shows "solve self =
           Some ([Call_enforce_node_consistency, Call_ac3, Call_backtrack], Inr None, self')"
proof -
  let ?s1 = "enforce_node_consistency self"
  from assms(2) obtain q where run: "ac3_loop ?s1 q = Some (Inr False, self')"
    by (auto simp: ac3_def)
  from ac3_loop_False_emptied[OF run] obtain x where x: "map_of (domains self') x = Some []"
    by auto
  have "map fst (domains self') = map fst (domains self)"
    using ac3_loop_shrink[OF run] by (simp add: domains_shrink_def enforce_node_consistency_keys)
  then have "fst ` set (domains self') = fst ` set (domains self)"
    by (metis set_map)
  moreover have "crossword self' = crossword self"
    using ac3_loop_crossword[OF run] by (simp add: enforce_node_consistency_crossword)
  ultimately have "fst ` set (domains self') = set (variables (crossword self'))"
    using assms(1) by simp
  from backtrack_empty_domain[OF this x] assms(2) show ?thesis
    by (simp add: solve_def)
qed

theorem solve_fails_when_ac3_reports_failure_witness:
  "fst ` set (domains (init scenario_D)) = set (variables (crossword (init scenario_D))) \<and>
   solve (init scenario_D) =
     Some ([Call_enforce_node_consistency, Call_ac3, Call_backtrack], Inr None,
           \<lparr>crossword = scenario_D, domains = [(across2, []), (down3, [''cde''])]\<rparr>)"
proof -
  have k: "fst ` set (domains (init scenario_D)) = set (variables (crossword (init scenario_D)))"
    by (simp add: init_def scenario_D_defs)
  have h: "ac3 (enforce_node_consistency (init scenario_D)) None =
     Some (Inr False, \<lparr>crossword = scenario_D, domains = [(across2, []), (down3, [''cde''])]\<rparr>)"
    by (simp add: ac3_def ac3_loop.simps revise_def neighbors_def enforce_node_consistency_def
        init_def scenario_D_defs)
  from solve_fails_when_ac3_reports_failure[OF k h] k show ?thesis by simp
qed

text \<open>
  On the puzzle that propagation refutes, \<open>ac3\<close> reports an emptied domain and \<open>solve\<close>
  calls \<open>backtrack\<close> all the same.
\<close>

theorem solve_invokes_backtrack_counterexample:
  "ac3 (enforce_node_consistency (init scenario_D)) None =
     Some (Inr False, \<lparr>crossword = scenario_D, domains = [(across2, []), (down3, [''cde''])]\<rparr>) \<and>
   map_option fst (solve (init scenario_D)) =
     Some [Call_enforce_node_consistency, Call_ac3, Call_backtrack]"
proof
  show "ac3 (enforce_node_consistency (init scenario_D)) None =
     Some (Inr False, \<lparr>crossword = scenario_D, domains = [(across2, []), (down3, [''cde''])]\<rparr>)"
    by (simp add: ac3_def ac3_loop.simps revise_def neighbors_def enforce_node_consistency_def
        init_def scenario_D_defs)
  show "map_option fst (solve (init scenario_D)) =
     Some [Call_enforce_node_consistency, Call_ac3, Call_backtrack]"
    by code_simp
qed

section \<open>Arc consistency after AC-3\<close>

lemma letters_agree_sym: "letters_agree w i w' j \<longleftrightarrow> letters_agree w' j w i"
  by (auto simp: letters_agree_def)

lemma neighbors_iff:
  "y \<in> set (neighbors cw x) \<longleftrightarrow>
     y \<in> set (variables cw) \<and> y \<noteq> x \<and> overlaps cw (x, y) \<noteq> None"
  by (auto simp: neighbors_def)

lemma pending_step_unchanged:
  assumes rev: "revise self x y = (Inr False, self)"
    and inv: "pending_or_consistent self ((x, y) # rest)"
  shows "pending_or_consistent self rest"
proof -
  have "arc_consistent self x y"
    using rev
  proof (cases rule: revise_cases)
    case no_overlap
    then show ?thesis by (simp add: arc_consistent_def)
  next
    case (unchanged i j dx)
    then have "domain_of self x = dx" by (simp add: domain_of_def)
    with unchanged show ?thesis by (simp add: arc_consistent_def)
  qed simp_all
  with inv show ?thesis
    unfolding pending_or_consistent_def by auto
qed

lemma pending_step_revised:
  assumes sym: "overlaps_symmetric (crossword self)"
    and rev: "revise self x y = (Inr True, s1)"
    and inv: "pending_or_consistent self ((x, y) # rest)"
  shows "pending_or_consistent s1
           (rest @ map (\<lambda>z. (z, x)) (removeAll y (neighbors (crossword s1) x)))"
proof -
  let ?cw = "crossword self"
  have cw: "crossword s1 = ?cw" using rev by (rule revise_crossword)
  from rev obtain i j where ov: "overlaps ?cw (x, y) = Some (i, j)"
    and dx: "domain_of s1 x =
        [w \<leftarrow> domain_of self x. \<exists>other \<in> set (domain_of self y). letters_agree w i other j]"
  proof (cases rule: revise_cases)
    case (revised i j dx)
    then have "domain_of self x = dx" by (simp add: domain_of_def)
    with revised that show ?thesis by (simp add: domain_of_update)
  qed simp_all
  have other: "domain_of s1 v = domain_of self v" if "v \<noteq> x" for v
    using revise_other[OF rev that] by (simp add: domain_of_def)
  have sub: "set (domain_of s1 x) \<subseteq> set (domain_of self x)"
    using dx by auto
  have "arc_consistent s1 a b \<or>
          (a, b) \<in> set (rest @ map (\<lambda>z. (z, x)) (removeAll y (neighbors ?cw x)))"
    if a: "a \<in> set (variables ?cw)" and b: "b \<in> set (neighbors ?cw a)" for a b
  proof (rule disjCI)
    assume out: "(a, b) \<notin> set (rest @ map (\<lambda>z. (z, x)) (removeAll y (neighbors ?cw x)))"
    from b have bv: "b \<in> set (variables ?cw)" and ba: "b \<noteq> a"
      and oab: "overlaps ?cw (a, b) \<noteq> None"
      by (simp_all add: neighbors_iff)
    from inv a b have old: "(a, b) = (x, y) \<or> (a, b) \<in> set rest \<or> arc_consistent self a b"
      unfolding pending_or_consistent_def by auto
    show "arc_consistent s1 a b"
    proof (cases "a = x")
      case True
      with ba have bx: "b \<noteq> x" by simp
      show ?thesis
      proof (cases "b = y")
        case beq: True
        show ?thesis
          unfolding arc_consistent_def cw using True beq ov dx other[OF bx] by auto
      next
        case False
        with old out True have "arc_consistent self x b" by auto
        then show ?thesis
          unfolding arc_consistent_def cw using True sub other[OF bx] by auto
      qed
    next
      case ax: False
      show ?thesis
      proof (cases "b = x")
        case True
        from oab True obtain i' j' where oax: "overlaps ?cw (a, x) = Some (i', j')" by auto
        with sym a bv True have oxa: "overlaps ?cw (x, a) = Some (j', i')"
          unfolding overlaps_symmetric_def by blast
        with a ax have "a \<in> set (neighbors ?cw x)" by (simp add: neighbors_iff)
        with out True have ay: "a = y" by auto
        with oxa ov have ij: "j' = i" "i' = j" by simp_all
        from old out ay True ax have oldc: "arc_consistent self y x" by auto
        have "\<forall>i'' j''. overlaps ?cw (a, b) = Some (i'', j'') \<longrightarrow>
                (\<forall>w' \<in> set (domain_of s1 a). \<exists>w'' \<in> set (domain_of s1 b).
                   letters_agree w' i'' w'' j'')"
        proof (intro allI impI ballI)
          fix i'' j'' w'
          assume o: "overlaps ?cw (a, b) = Some (i'', j'')" and w': "w' \<in> set (domain_of s1 a)"
          from o oax True have e: "i'' = j" "j'' = i" using ij by simp_all
          from w' ax have w'y: "w' \<in> set (domain_of self y)" using other ay by simp
          with oldc oax ay ij obtain w where w: "w \<in> set (domain_of self x)"
            and ag: "letters_agree w' j w i"
            unfolding arc_consistent_def by blast
          from ag have "letters_agree w i w' j" by (simp add: letters_agree_sym)
          with w w'y have "w \<in> set (domain_of s1 x)" unfolding dx by auto
          with ag e True show "\<exists>w'' \<in> set (domain_of s1 b). letters_agree w' i'' w'' j''"
            by auto
        qed
        then show ?thesis unfolding arc_consistent_def cw .
      next
        case False
        with old out ax have "arc_consistent self a b" by auto
        then show ?thesis
          unfolding arc_consistent_def cw using other[OF ax] other[OF False] by simp
      qed
    qed
  qed
  then show ?thesis unfolding pending_or_consistent_def cw by blast
qed

lemma ac3_loop_arc_consistent:
  assumes "ac3_loop self queue = Some r"
    and "overlaps_symmetric (crossword self)"
    and "pending_or_consistent self queue"
    and "fst r = Inr True"
  shows "pending_or_consistent (snd r) []"
  using assms
proof (induction rule: ac3_loop_induct)
  case (requeue self x y rest s1 dx r)
  have cw: "crossword s1 = crossword self" using requeue(1) by (rule revise_crossword)
  from pending_step_revised[OF requeue(5) requeue(1) requeue(6)] requeue(4,5,7) cw
  show ?case by simp
next
  case (unchanged self x y rest r)
  from pending_step_unchanged[OF unchanged(1) unchanged(4)] unchanged(2,3,5)
  show ?case by simp
qed simp_all

text \<open>
  Claim C4. On a puzzle whose overlap table is symmetric, if \<open>ac3\<close> with the default
  arcs returns true, then for every variable \<open>x\<close> of the puzzle, every neighbor \<open>y\<close> of
  \<open>x\<close> and their overlap \<open>(i, j)\<close>, every word left in the domain of \<open>x\<close> has a word in
  the domain of \<open>y\<close> whose \<open>j\<close>-th letter is the word's \<open>i\<close>-th letter.
\<close>

theorem ac3_arc_consistent:
  assumes "overlaps_symmetric (crossword self)"
    and "ac3 self None = Some (Inr True, self')"
  shows "\<forall>x \<in> set (variables (crossword self)). \<forall>y \<in> set (neighbors (crossword self) x).
           \<forall>i j. overlaps (crossword self) (x, y) = Some (i, j) \<longrightarrow>
             (\<forall>w \<in> set (domain_of self' x). \<exists>w' \<in> set (domain_of self' y).
                letters_agree w i w' j)"
proof -
  let ?q = "concat (map (\<lambda>x. map (\<lambda>y. (x, y)) (neighbors (crossword self) x))
                            (map fst (domains self)))"
  from assms(2) have run: "ac3_loop self ?q = Some (Inr True, self')"
    by (simp add: ac3_def)
  have "pending_or_consistent self ?q"
    unfolding pending_or_consistent_def
  proof (intro ballI)
    fix x y assume "x \<in> set (variables (crossword self))" "y \<in> set (neighbors (crossword self) x)"
    show "(x, y) \<in> set ?q \<or> arc_consistent self x y"
    proof (cases "x \<in> fst ` set (domains self)")
      case True
      with \<open>y \<in> set (neighbors (crossword self) x)\<close> show ?thesis by auto
    next
      case False
      then have "map_of (domains self) x = None" by (simp add: map_of_eq_None_iff)
      then show ?thesis by (simp add: arc_consistent_def domain_of_def)
    qed
  qed
  from ac3_loop_arc_consistent[OF run assms(1) this]
  have "pending_or_consistent self' []" by simp
  moreover have "crossword self' = crossword self"
    using ac3_loop_crossword[OF run] by simp
  ultimately show ?thesis
    unfolding pending_or_consistent_def arc_consistent_def by simp
qed

lemmas scenario_B_defs = scenario_B_def slot_across_def slot_down_def

lemma scenario_B_symmetric: "overlaps_symmetric scenario_B"
  by (simp add: overlaps_symmetric_def scenario_B_defs)

lemma scenario_B_ac3:
  "ac3 (enforce_node_consistency (init scenario_B)) None =
     Some (Inr True, \<lparr>crossword = scenario_B,
        domains = [(slot_across, [''cat'', ''ace'']), (slot_down, [''cat'', ''ace''])]\<rparr>)"
  by (simp add: ac3_def ac3_loop.simps revise_def neighbors_def enforce_node_consistency_def
        init_def scenario_B_defs)

theorem ac3_arc_consistent_witness:
  "overlaps_symmetric (crossword (enforce_node_consistency (init scenario_B))) \<and>
   ac3 (enforce_node_consistency (init scenario_B)) None =
     Some (Inr True, \<lparr>crossword = scenario_B,
        domains = [(slot_across, [''cat'', ''ace'']), (slot_down, [''cat'', ''ace''])]\<rparr>) \<and>
   (\<exists>w' \<in> set [''cat'', ''ace'']. letters_agree ''cat'' 1 w' 0) \<and>
   (\<exists>w' \<in> set [''cat'', ''ace'']. letters_agree ''ace'' 1 w' 0)"
proof -
  have s: "overlaps_symmetric (crossword (enforce_node_consistency (init scenario_B)))"
    using scenario_B_symmetric by (simp add: enforce_node_consistency_def init_def)
  have x: "slot_across \<in> set (variables (crossword (enforce_node_consistency (init scenario_B))))"
    by (simp add: enforce_node_consistency_def init_def scenario_B_def)
  have y: "slot_down \<in> set (neighbors (crossword (enforce_node_consistency (init scenario_B))) slot_across)"
    by (simp add: neighbors_def enforce_node_consistency_def init_def scenario_B_defs)
  have o: "overlaps (crossword (enforce_node_consistency (init scenario_B))) (slot_across, slot_down)
      = Some (1, 0)"
    by (simp add: enforce_node_consistency_def init_def scenario_B_defs)
  from ac3_arc_consistent[OF s scenario_B_ac3] x y o
  have "\<forall>w \<in> set (domain_of \<lparr>crossword = scenario_B,
        domains = [(slot_across, [''cat'', ''ace'']), (slot_down, [''cat'', ''ace''])]\<rparr> slot_across).
      \<exists>w' \<in> set (domain_of \<lparr>crossword = scenario_B,
        domains = [(slot_across, [''cat'', ''ace'']), (slot_down, [''cat'', ''ace''])]\<rparr> slot_down).
      letters_agree w 1 w' 0"
    by blast
  then have "\<forall>w \<in> set [''cat'', ''ace'']. \<exists>w' \<in> set [''cat'', ''ace'']. letters_agree w 1 w' 0"
    by (simp add: domain_of_def scenario_B_defs)
  then have "(\<exists>w' \<in> set [''cat'', ''ace'']. letters_agree ''cat'' 1 w' 0) \<and>
      (\<exists>w' \<in> set [''cat'', ''ace'']. letters_agree ''ace'' 1 w' 0)"
    by simp
  with s scenario_B_ac3 show ?thesis by blast
qed

section \<open>Soundness of the search\<close>

lemma check_neighbors_True:
  assumes "check_neighbors self a var word ns = Inr True"
    and "n \<in> set ns" "map_of a n = Some other"
    and "overlaps (crossword self) (var, n) = Some (i, j)"
  shows "letters_agree word i other j"
  using assms
  by (induction ns) (auto simp: letters_agree_def split: option.splits if_splits)

lemma check_vars_True:
  assumes "check_vars self a items = Inr True" "(var, word) \<in> set items"
  shows "length word = var_length var \<and>
         check_neighbors self a var word (neighbors (crossword self) var) = Inr True"
  using assms
  by (induction items) (auto split: if_splits sum.splits)

lemma consistent_True:
  assumes "consistent self a = Inr True"
  shows "distinct (map snd a)"
    and "(var, word) \<in> set a \<Longrightarrow> length word = var_length var"
    and "map_of a x = Some wx \<Longrightarrow> map_of a y = Some wy \<Longrightarrow>
         y \<in> set (neighbors (crossword self) x) \<Longrightarrow>
         overlaps (crossword self) (x, y) = Some (i, j) \<Longrightarrow> letters_agree wx i wy j"
proof -
  from assms have c: "\<not> card (set (map snd a)) < length a"
    and cv: "check_vars self a a = Inr True"
    by (auto simp: consistent_def split: if_splits)
  have "card (set (map snd a)) \<le> length (map snd a)" by (rule card_length)
  with c have "card (set (map snd a)) = length (map snd a)" by simp
  then show "distinct (map snd a)" by (rule card_distinct)
  show "length word = var_length var" if "(var, word) \<in> set a"
    using check_vars_True[OF cv that] by simp
  show "letters_agree wx i wy j"
    if "map_of a x = Some wx" "map_of a y = Some wy" "y \<in> set (neighbors (crossword self) x)"
       "overlaps (crossword self) (x, y) = Some (i, j)"
  proof -
    from that(1) have "(x, wx) \<in> set a" by (rule map_of_SomeD)
    from check_vars_True[OF cv this]
    have "check_neighbors self a x wx (neighbors (crossword self) x) = Inr True" by simp
    from check_neighbors_True[OF this that(3) that(2) that(4)] show ?thesis .
  qed
qed

lemma consistent_empty: "consistent self [] = Inr True"
  by (simp add: consistent_def)

lemma backtrack_sound:
  "\<forall>r. backtrack self a = Inr (Some r) \<longrightarrow>
     (distinct (map fst a) \<longrightarrow> distinct (map fst r)) \<and>
     (r = a \<and> assignment_complete self a \<or>
      assignment_complete self r \<and> consistent self r = Inr True)"
  "\<forall>r. try_values self a var vals = Inr (Some r) \<longrightarrow>
     (distinct (map fst a) \<longrightarrow> distinct (map fst r)) \<and>
     assignment_complete self r \<and> consistent self r = Inr True"
proof (induction self a and self a var vals rule: backtrack_try_values.induct)
  case (1 self assignment)
  show ?case
  proof (intro allI impI)
    fix r assume r: "backtrack self assignment = Inr (Some r)"
    show "(distinct (map fst assignment) \<longrightarrow> distinct (map fst r)) \<and>
          (r = assignment \<and> assignment_complete self assignment \<or>
           assignment_complete self r \<and> consistent self r = Inr True)"
    proof (cases "assignment_complete self assignment")
      case True
      with r show ?thesis by (simp add: backtrack.simps)
    next
      case False
      with r obtain var vals where
        sel: "select_unassigned_variable self assignment = Inr (Some var)"
        and odv: "order_domain_values self var assignment = Inr vals"
        and tv: "try_values self assignment var vals = Inr (Some r)"
        by (subst (asm) backtrack.simps) (auto split: sum.splits option.splits)
      from 1[OF False sel refl odv] tv show ?thesis by blast
    qed
  qed
next
  case (2 self assignment var)
  show ?case by simp
next
  case (3 self assignment var val rest)
  let ?new = "AList.update var val assignment"
  show ?case
  proof (intro allI impI)
    fix r assume r: "try_values self assignment var (val # rest) = Inr (Some r)"
    obtain ok where ok: "consistent self ?new = Inr ok"
      using r by (cases "consistent self ?new") (auto simp: Let_def)
    have d: "distinct (map fst assignment) \<longrightarrow> distinct (map fst ?new)"
      by (simp add: distinct_update)
    show "(distinct (map fst assignment) \<longrightarrow> distinct (map fst r)) \<and>
          assignment_complete self r \<and> consistent self r = Inr True"
    proof (cases ok)
      case True
      obtain br where br: "backtrack self ?new = Inr br"
        using r ok True by (cases "backtrack self ?new") (auto simp: Let_def)
      show ?thesis
      proof (cases br)
        case None
        with r ok True br have "try_values self assignment var rest = Inr (Some r)"
          by (simp add: Let_def)
        with "3.IH"(2)[OF refl ok True br None] show ?thesis by blast
      next
        case (Some r')
        with r ok True br have "r' = r" by (simp add: Let_def)
        with "3.IH"(1)[OF refl ok True] br Some ok True d show ?thesis by auto
      qed
    next
      case False
      with r ok have "try_values self assignment var rest = Inr (Some r)"
        by (simp add: Let_def)
      with "3.IH"(3)[OF refl ok False] show ?thesis by blast
    qed
  qed
qed

text \<open>
  Claim C2. Whenever \<open>solve\<close> returns an assignment, the assignment is complete, it maps
  every variable to exactly one word, \<open>consistent\<close> accepts it, its words are pairwise
  distinct, every word has the length of its variable, and every assigned variable
  agrees with each of its assigned neighbors at their overlap indices.
\<close>

theorem solve_sound:
  assumes "solve self = Some (calls, Inr (Some a), self')"
  shows "crossword self' = crossword self \<and>
         assignment_complete self' a \<and> distinct (map fst a) \<and>
         consistent self' a = Inr True \<and>
         distinct (map snd a) \<and>
         (\<forall>(v, w) \<in> set a. length w = var_length v) \<and>
         (\<forall>x y wx wy i j.
            map_of a x = Some wx \<longrightarrow> map_of a y = Some wy \<longrightarrow>
            y \<in> set (neighbors (crossword self) x) \<longrightarrow>
            overlaps (crossword self) (x, y) = Some (i, j) \<longrightarrow> letters_agree wx i wy j)"
proof -
  from assms obtain ok where
    run: "ac3 (enforce_node_consistency self) None = Some (Inr ok, self')"
    and bt: "backtrack self' [] = Inr (Some a)"
    by (auto simp: solve_def Let_def split: option.splits sum.splits)
  from run have "ac3_loop (enforce_node_consistency self)
      (concat (map (\<lambda>x. map (\<lambda>y. (x, y)) (neighbors (crossword (enforce_node_consistency self)) x))
                            (map fst (domains (enforce_node_consistency self))))) = Some (Inr ok, self')"
    by (simp add: ac3_def)
  from ac3_loop_crossword[OF this]
  have cw: "crossword self' = crossword self"
    by (simp add: enforce_node_consistency_crossword)
  from backtrack_sound(1)[of self' "[]"] bt
  have dk: "distinct (map fst a)"
    and "a = [] \<and> assignment_complete self' [] \<or>
         assignment_complete self' a \<and> consistent self' a = Inr True"
    by auto
  then have ac: "assignment_complete self' a" and co: "consistent self' a = Inr True"
    by (auto simp: consistent_empty)
  note sem = consistent_True[OF co]
  have "\<forall>(v, w) \<in> set a. length w = var_length v"
    using sem(2) by auto
  moreover have "\<forall>x y wx wy i j.
            map_of a x = Some wx \<longrightarrow> map_of a y = Some wy \<longrightarrow>
            y \<in> set (neighbors (crossword self) x) \<longrightarrow>
            overlaps (crossword self) (x, y) = Some (i, j) \<longrightarrow> letters_agree wx i wy j"
    using sem(3) unfolding cw by blast
  ultimately show ?thesis using cw ac dk co sem(1) by blast
qed

lemma scenario_B_solve:
  "map_option (\<lambda>(calls, r, s). r) (solve (init scenario_B)) =
     Some (Inr (Some [(slot_across, ''cat''), (slot_down, ''ace'')]))"
  by code_simp

theorem solve_sound_witness:
  "map_option (\<lambda>(calls, r, s). r) (solve (init scenario_B)) =
     Some (Inr (Some [(slot_across, ''cat''), (slot_down, ''ace'')])) \<and>
   distinct (map snd [(slot_across, ''cat''), (slot_down, ''ace'')]) \<and>
   letters_agree ''cat'' 1 ''ace'' 0"
proof -
  from scenario_B_solve obtain calls s where
    h: "solve (init scenario_B) =
          Some (calls, Inr (Some [(slot_across, ''cat''), (slot_down, ''ace'')]), s)"
    by (cases "solve (init scenario_B)") auto
  have n: "slot_down \<in> set (neighbors (crossword (init scenario_B)) slot_across)"
    by (simp add: neighbors_def init_def scenario_B_defs)
  have o: "overlaps (crossword (init scenario_B)) (slot_across, slot_down) = Some (1, 0)"
    by (simp add: init_def scenario_B_defs)
  have m: "map_of [(slot_across, ''cat''), (slot_down, ''ace'')] slot_across = Some ''cat''"
    "map_of [(slot_across, ''cat''), (slot_down, ''ace'')] slot_down = Some ''ace''"
    by (simp_all add: scenario_B_defs)
  from solve_sound[OF h] m n o
  have "distinct (map snd [(slot_across, ''cat''), (slot_down, ''ace'')])"
    and "letters_agree ''cat'' 1 ''ace'' 0"
    by blast+
  with scenario_B_solve show ?thesis by blast
qed

section \<open>Completeness of the search\<close>

lemma solution_in_bounds: "solution cw f \<Longrightarrow> overlaps_in_bounds cw"
  unfolding solution_def overlaps_in_bounds_def letters_agree_def
  by (metis neighbors_iff)

subsection \<open>No exception in \<open>revise\<close>\<close>

lemma any_match_no_error:
  "i < length word \<Longrightarrow> \<forall>other \<in> set dy. j < length other \<Longrightarrow>
     \<exists>found. any_match word i j dy = Inr found"
  by (induction dy) auto

lemma to_remove_of_no_error:
  assumes "map_of (domains self) y = Some dy"
    and "\<forall>w \<in> set dx. i < length w" "\<forall>other \<in> set dy. j < length other"
  shows "\<exists>to_remove. to_remove_of self y i j dx = Inr to_remove"
  using assms(2)
proof (induction dx)
  case Nil
  then show ?case by simp
next
  case (Cons w dx)
  then obtain tr where "to_remove_of self y i j dx = Inr tr" by auto
  moreover from Cons.prems assms(3) obtain found where "any_match w i j dy = Inr found"
    using any_match_no_error[of i w dy j] by auto
  ultimately show ?case using assms(1) by simp
qed

lemma revise_no_error:
  assumes keys: "x \<in> fst ` set (domains self)" "y \<in> fst ` set (domains self)"
    and nc: "node_consistent self"
    and bounds: "\<And>i j. overlaps (crossword self) (x, y) = Some (i, j) \<Longrightarrow>
                   i < var_length x \<and> j < var_length y"
  shows "\<exists>b s1. revise self x y = (Inr b, s1)"
proof (cases "overlaps (crossword self) (x, y)")
  case None
  then have "revise self x y = (Inr False, self)" by (simp add: revise_def)
  then show ?thesis by blast
next
  case (Some ij)
  obtain i j where ij: "ij = (i, j)" by (cases ij)
  from key_has_domain[OF keys(1)] obtain dx where dx: "map_of (domains self) x = Some dx" ..
  from key_has_domain[OF keys(2)] obtain dy where dy: "map_of (domains self) y = Some dy" ..
  from bounds[of i j] Some ij have b: "i < var_length x" "j < var_length y" by simp_all
  have "domain_of self x = dx" "domain_of self y = dy"
    using dx dy by (simp_all add: domain_of_def)
  with nc have "\<forall>w \<in> set dx. length w = var_length x" "\<forall>w \<in> set dy. length w = var_length y"
    unfolding node_consistent_def by blast+
  with b have "\<forall>w \<in> set dx. i < length w" "\<forall>w \<in> set dy. j < length w"
    by simp_all
  then obtain tr where "to_remove_of self y i j dx = Inr tr"
    using to_remove_of_no_error[OF dy] by blast
  then have "revise self x y = (Inr (tr \<noteq> []), snd (revise self x y))"
    using Some ij dx by (simp add: revise_def)
  then show ?thesis by blast
qed

lemma revise_keeps_solution:
  assumes rev: "revise self x y = (out, s1)"
    and arc: "\<And>i j. overlaps (crossword self) (x, y) = Some (i, j) \<Longrightarrow>
                letters_agree (f x) i (f y) j"
    and fy: "f y \<in> set (domain_of self y)"
    and fv: "f v \<in> set (domain_of self v)"
  shows "f v \<in> set (domain_of s1 v)"
  using rev
proof (cases rule: revise_cases)
  case (revised i j dx)
  then have "domain_of self x = dx" by (simp add: domain_of_def)
  with revised arc[of i j] fy fv show ?thesis by (auto simp: domain_of_update)
qed (use fv in simp_all)

lemma revise_node_consistent:
  assumes "revise self x y = (out, s1)" "node_consistent self"
  shows "node_consistent s1"
  using assms(2) revise_subset[OF assms(1)] unfolding node_consistent_def by blast

subsection \<open>Propagation keeps a solution\<close>

lemma revise_invariant:
  assumes inv: "solver_invariant f self"
    and x: "x \<in> set (variables (crossword self))"
    and y: "y \<in> set (variables (crossword self))" and xy: "x \<noteq> y"
    and rev: "revise self x y = (out, s1)"
  shows "solver_invariant f s1" and "\<exists>b. out = Inr b"
proof -
  let ?cw = "crossword self"
  from inv have keys: "fst ` set (domains self) = set (variables ?cw)"
    and nc: "node_consistent self" and sol: "solution ?cw f" and sup: "supports self f"
    by (simp_all add: solver_invariant_def)
  have nb: "y \<in> set (neighbors ?cw x)" if "overlaps ?cw (x, y) = Some (i, j)" for i j
    using that y xy by (simp add: neighbors_iff)
  have arc: "letters_agree (f x) i (f y) j" if "overlaps ?cw (x, y) = Some (i, j)" for i j
    using sol x nb[OF that] that unfolding solution_def by blast
  have bounds: "i < var_length x \<and> j < var_length y" if "overlaps ?cw (x, y) = Some (i, j)" for i j
    using solution_in_bounds[OF sol] x nb[OF that] that unfolding overlaps_in_bounds_def by blast
  from revise_no_error[of x self y] keys x y nc bounds rev
  show "\<exists>b. out = Inr b" by auto
  have cw: "crossword s1 = ?cw" using rev by (rule revise_crossword)
  have "map fst (domains s1) = map fst (domains self)" using rev by (rule revise_keys)
  then have k1: "fst ` set (domains s1) = fst ` set (domains self)" by (metis set_map)
  have "supports s1 f"
    unfolding supports_def cw
  proof
    fix v assume "v \<in> set (variables ?cw)"
    with sup have "f v \<in> set (domain_of self v)" by (simp add: supports_def)
    moreover from sup y have "f y \<in> set (domain_of self y)" by (simp add: supports_def)
    ultimately show "f v \<in> set (domain_of s1 v)"
      using revise_keeps_solution[OF rev arc] by blast
  qed
  with k1 keys cw sol revise_node_consistent[OF rev nc]
  show "solver_invariant f s1" by (simp add: solver_invariant_def)
qed

lemma ac3_loop_invariant:
  assumes "ac3_loop self queue = Some r"
    and "solver_invariant f self"
    and "proper_arcs (crossword self) queue"
  shows "fst r = Inr True \<and> solver_invariant f (snd r)"
  using assms
proof (induction rule: ac3_loop_induct)
  case (empty self)
  then show ?case by simp
next
  case (raised self x y rest e s1)
  then have "x \<in> set (variables (crossword self))" "y \<in> set (variables (crossword self))" "x \<noteq> y"
    by (simp_all add: proper_arcs_def)
  from revise_invariant(2)[OF raised(2) this raised(1)] show ?case by simp
next
  case (emptied self x y rest s1)
  then have xy: "x \<in> set (variables (crossword self))" "y \<in> set (variables (crossword self))" "x \<noteq> y"
    by (simp_all add: proper_arcs_def)
  from revise_invariant(1)[OF emptied(3) xy emptied(1)]
  have "supports s1 f" and "crossword s1 = crossword self"
    using revise_crossword[OF emptied(1)] by (simp_all add: solver_invariant_def)
  with xy(1) have "f x \<in> set (domain_of s1 x)" by (simp add: supports_def)
  with emptied(2) show ?case by (simp add: domain_of_def)
next
  case (requeue self x y rest s1 dx r)
  then have xy: "x \<in> set (variables (crossword self))" "y \<in> set (variables (crossword self))" "x \<noteq> y"
    and rest: "proper_arcs (crossword self) rest"
    by (simp_all add: proper_arcs_def)
  have cw: "crossword s1 = crossword self" using requeue(1) by (rule revise_crossword)
  have "proper_arcs (crossword s1)
          (rest @ map (\<lambda>z. (z, x)) (removeAll y (neighbors (crossword s1) x)))"
    using rest xy(1) unfolding cw proper_arcs_def by (auto simp: neighbors_iff)
  with requeue(4)[OF revise_invariant(1)[OF requeue(5) xy requeue(1)]]
  show ?case by simp
next
  case (unchanged self x y rest r)
  then have "proper_arcs (crossword self) rest" by (simp add: proper_arcs_def)
  with unchanged(2)[OF unchanged(3)] show ?case by simp
qed

lemma enforce_node_consistency_invariant:
  assumes keys: "fst ` set (domains self) = set (variables (crossword self))"
    and sol: "solution (crossword self) f" and sup: "supports self f"
  shows "solver_invariant f (enforce_node_consistency self)"
proof -
  let ?s1 = "enforce_node_consistency self"
  have d: "domain_of ?s1 v = [w \<leftarrow> domain_of self v. length w = var_length v]" for v
    by (simp add: domain_of_def enforce_node_consistency_lookup split: option.splits)
  have "fst ` set (domains ?s1) = fst ` set (domains self)"
    using enforce_node_consistency_keys[of self] by (metis set_map)
  moreover have "node_consistent ?s1" by (simp add: node_consistent_def d)
  moreover have "supports ?s1 f"
    using sol sup
    by (simp add: supports_def solution_def d enforce_node_consistency_crossword)
  ultimately show ?thesis
    using keys sol by (simp add: solver_invariant_def enforce_node_consistency_crossword)
qed

lemma ac3_invariant:
  assumes "solver_invariant f self"
  shows "\<exists>s2. ac3 self None = Some (Inr True, s2) \<and> solver_invariant f s2"
proof -
  let ?q = "concat (map (\<lambda>x. map (\<lambda>y. (x, y)) (neighbors (crossword self) x))
                            (map fst (domains self)))"
  from ac3_loop_terminates[of self ?q] obtain r where run: "ac3_loop self ?q = Some r" ..
  from assms have "fst ` set (domains self) = set (variables (crossword self))"
    by (simp add: solver_invariant_def)
  then have "proper_arcs (crossword self) ?q"
    by (auto simp: proper_arcs_def neighbors_iff)
  from ac3_loop_invariant[OF run assms this] run show ?thesis
    by (cases r) (simp add: ac3_def)
qed

subsection \<open>No exception in \<open>consistent\<close>\<close>

lemma check_neighbors_no_error:
  assumes "\<forall>n \<in> set ns. \<forall>other i j. map_of a n = Some other \<longrightarrow>
             overlaps (crossword self) (var, n) = Some (i, j) \<longrightarrow>
             i < length word \<and> j < length other"
  shows "\<exists>b. check_neighbors self a var word ns = Inr b"
  using assms by (induction ns) (auto split: option.splits)

lemma check_vars_no_error:
  assumes "\<forall>(v, w) \<in> set items.
             \<exists>b. check_neighbors self a v w (neighbors (crossword self) v) = Inr b"
  shows "\<exists>b. check_vars self a items = Inr b"
  using assms by (induction items) (auto split: sum.splits)

lemma consistent_no_error:
  assumes bounds: "overlaps_in_bounds (crossword self)"
    and pa: "partial_assignment (crossword self) a"
  shows "\<exists>b. consistent self a = Inr b"
proof -
  let ?cw = "crossword self"
  have "\<exists>b. check_neighbors self a v w (neighbors ?cw v) = Inr b" if vw: "(v, w) \<in> set a" for v w
  proof (rule check_neighbors_no_error, intro ballI allI impI)
    fix n other i j
    assume n: "n \<in> set (neighbors ?cw v)" and o: "map_of a n = Some other"
      and ov: "overlaps ?cw (v, n) = Some (i, j)"
    from vw pa have v: "v \<in> set (variables ?cw)" and lw: "length w = var_length v"
      by (auto simp: partial_assignment_def)
    from o have "(n, other) \<in> set a" by (rule map_of_SomeD)
    with pa have "length other = var_length n" by (auto simp: partial_assignment_def)
    with bounds v n ov lw show "i < length w \<and> j < length other"
      unfolding overlaps_in_bounds_def by auto
  qed
  then have "\<exists>b. check_vars self a a = Inr b"
    by (intro check_vars_no_error) auto
  then show ?thesis by (auto simp: consistent_def)
qed

subsection \<open>A sub-assignment of a solution is consistent\<close>

lemma check_neighbors_TrueI:
  assumes "\<forall>n \<in> set ns. \<forall>other i j. map_of a n = Some other \<longrightarrow>
             overlaps (crossword self) (var, n) = Some (i, j) \<longrightarrow>
             letters_agree word i other j"
  shows "check_neighbors self a var word ns = Inr True"
  using assms by (induction ns) (auto simp: letters_agree_def split: option.splits)

lemma check_vars_TrueI:
  assumes "\<forall>(v, w) \<in> set items. length w = var_length v \<and>
             check_neighbors self a v w (neighbors (crossword self) v) = Inr True"
  shows "check_vars self a items = Inr True"
  using assms by (induction items) auto

lemma consistent_of_solution:
  assumes sol: "solution (crossword self) f"
    and d: "distinct (map fst a)" and k: "fst ` set a \<subseteq> set (variables (crossword self))"
    and ag: "agrees a f"
  shows "consistent self a = Inr True"
proof -
  let ?cw = "crossword self"
  have "map snd a = map f (map fst a)"
    using ag by (auto simp: agrees_def)
  moreover have "distinct (map f (map fst a))"
    using sol d k unfolding solution_def distinct_map
    by (auto intro: inj_on_subset)
  ultimately have "distinct (map snd a)" by (simp only:)
  then have "card (set (map snd a)) = length a"
    using distinct_card[of "map snd a"] by simp
  moreover have "check_vars self a a = Inr True"
  proof (rule check_vars_TrueI, clarify, intro conjI)
    fix v w assume vw: "(v, w) \<in> set a"
    with ag k have fv: "f v = w" and v: "v \<in> set (variables ?cw)"
      by (auto simp: agrees_def)
    with sol show "length w = var_length v" by (auto simp: solution_def)
    show "check_neighbors self a v w (neighbors ?cw v) = Inr True"
    proof (rule check_neighbors_TrueI, intro ballI allI impI)
      fix n other i j
      assume n: "n \<in> set (neighbors ?cw v)" and o: "map_of a n = Some other"
        and ov: "overlaps ?cw (v, n) = Some (i, j)"
      from o have "(n, other) \<in> set a" by (rule map_of_SomeD)
      with ag have "f n = other" by (auto simp: agrees_def)
      with sol v n ov fv show "letters_agree w i other j"
        unfolding solution_def by blast
    qed
  qed
  ultimately show ?thesis by (simp add: consistent_def)
qed

subsection \<open>No exception in \<open>order_domain_values\<close>\<close>

lemma conflicts_in_no_error:
  "i < length val \<Longrightarrow> \<forall>nw \<in> set dn. j < length nw \<Longrightarrow> \<exists>c. conflicts_in val i j dn = Inr c"
  by (induction dn) auto

lemma count_conflicts_loop_no_error:
  assumes "\<forall>n \<in> set ns. \<forall>i j. overlaps (crossword self) (var, n) = Some (i, j) \<longrightarrow>
             (\<exists>dn. map_of (domains self) n = Some dn \<and> i < length val \<and>
                   (\<forall>nw \<in> set dn. j < length nw))"
  shows "\<exists>c. count_conflicts_loop self var a val ns = Inr c"
  using assms
proof (induction ns)
  case Nil
  then show ?case by simp
next
  case (Cons n ns)
  then obtain c' where c': "count_conflicts_loop self var a val ns = Inr c'" by auto
  show ?case
  proof (cases "overlaps (crossword self) (var, n)")
    case None
    with c' show ?thesis by simp
  next
    case (Some ij)
    obtain i j where ij: "ij = (i, j)" by (cases ij)
    with Cons.prems Some obtain dn where dn: "map_of (domains self) n = Some dn"
      and b: "i < length val" "\<forall>nw \<in> set dn. j < length nw"
      by auto
    from conflicts_in_no_error[OF b] obtain c where "conflicts_in val i j dn = Inr c" ..
    with c' Some ij dn show ?thesis by simp
  qed
qed

lemma order_domain_values_total:
  assumes inv: "search_invariant self" and var: "var \<in> set (variables (crossword self))"
  shows "\<exists>vals. order_domain_values self var a = Inr vals \<and>
                set vals = set (domain_of self var)"
proof -
  let ?cw = "crossword self"
  from inv have keys: "set (variables ?cw) \<subseteq> fst ` set (domains self)"
    and nc: "node_consistent self" and bounds: "overlaps_in_bounds ?cw"
    by (simp_all add: search_invariant_def)
  from keys var have "var \<in> fst ` set (domains self)" by blast
  from key_has_domain[OF this] obtain d where d: "map_of (domains self) var = Some d" ..
  then have dv: "domain_of self var = d" by (simp add: domain_of_def)
  have "\<exists>c. count_conflicts self var a val = Inr c" if val: "val \<in> set d" for val
    unfolding count_conflicts_def
  proof (rule count_conflicts_loop_no_error, intro ballI allI impI)
    fix n i j
    assume n: "n \<in> set (neighbors ?cw var)" and ov: "overlaps ?cw (var, n) = Some (i, j)"
    from n have "n \<in> set (variables ?cw)" by (simp add: neighbors_iff)
    with keys have "n \<in> fst ` set (domains self)" by blast
    from key_has_domain[OF this] obtain dn where dn: "map_of (domains self) n = Some dn" ..
    then have "domain_of self n = dn" by (simp add: domain_of_def)
    with nc have ln: "\<forall>nw \<in> set dn. length nw = var_length n"
      unfolding node_consistent_def by blast
    from nc val dv have "length val = var_length var"
      unfolding node_consistent_def by blast
    moreover from bounds var n ov have "i < var_length var \<and> j < var_length n"
      unfolding overlaps_in_bounds_def by blast
    ultimately show "\<exists>dn. map_of (domains self) n = Some dn \<and> i < length val \<and>
                   (\<forall>nw \<in> set dn. j < length nw)"
      using dn ln by simp
  qed
  then have "\<forall>val \<in> set d. \<exists>c. count_conflicts self var a val = Inr c" by blast
  from sorted_by_total[OF this]
  have "order_domain_values self var a =
      Inr (sort_key (\<lambda>x. projr (count_conflicts self var a x)) d)"
    unfolding order_domain_values_def d by simp
  moreover have "set (sort_key (\<lambda>x. projr (count_conflicts self var a x)) d) =
      set (domain_of self var)"
    unfolding dv by simp
  ultimately show ?thesis by blast
qed

subsection \<open>The search finds a solution when there is one\<close>

lemma set_update_subset: "set (AList.update k v al) \<subseteq> insert (k, v) (set al)"
  by (induction al) auto

lemma partial_assignment_update:
  assumes "partial_assignment cw a" "var \<in> set (variables cw)" "length val = var_length var"
  shows "partial_assignment cw (AList.update var val a)"
  using assms set_update_subset[of var val a]
  unfolding partial_assignment_def keys_update
  by (auto simp: distinct_update)

lemma agrees_update:
  assumes "agrees a f" "f var = val"
  shows "agrees (AList.update var val a) f"
  using assms set_update_subset[of var val a] unfolding agrees_def by auto

lemma backtrack_complete:
  "search_invariant self \<longrightarrow> partial_assignment (crossword self) a \<longrightarrow>
     (\<exists>r. backtrack self a = Inr r) \<and>
     (\<forall>f. solution (crossword self) f \<and> supports self f \<and> agrees a f \<longrightarrow>
          backtrack self a \<noteq> Inr None)"
  "search_invariant self \<longrightarrow> partial_assignment (crossword self) a \<longrightarrow>
   var \<in> set (variables (crossword self)) \<longrightarrow> var \<notin> fst ` set a \<longrightarrow>
   set vals \<subseteq> set (domain_of self var) \<longrightarrow>
     (\<exists>r. try_values self a var vals = Inr r) \<and>
     (\<forall>f. solution (crossword self) f \<and> supports self f \<and> agrees a f \<and> f var \<in> set vals \<longrightarrow>
          try_values self a var vals \<noteq> Inr None)"
proof (induction self a and self a var vals rule: backtrack_try_values.induct)
  case (1 self a)
  let ?cw = "crossword self"
  show ?case
  proof (intro impI)
    assume inv: "search_invariant self" and pa: "partial_assignment ?cw a"
    show "(\<exists>r. backtrack self a = Inr r) \<and>
          (\<forall>f. solution ?cw f \<and> supports self f \<and> agrees a f \<longrightarrow> backtrack self a \<noteq> Inr None)"
    proof (cases "assignment_complete self a")
      case True
      then show ?thesis by (simp add: backtrack.simps)
    next
      case False
      from pa have "fst ` set a \<subseteq> set (variables ?cw)" by (simp add: partial_assignment_def)
      with False obtain u where u: "u \<in> set (variables ?cw)" "u \<notin> fst ` set a"
        by (auto simp: assignment_complete_def)
      from inv have keys: "set (variables ?cw) \<subseteq> fst ` set (domains self)"
        by (simp add: search_invariant_def)
      from select_unassigned_variable_least[OF keys u] obtain var where
        sel: "select_unassigned_variable self a = Inr (Some var)"
        and var: "var \<in> set (variables ?cw)" "var \<notin> fst ` set a"
        by blast
      from order_domain_values_total[OF inv var(1), of a] obtain vals where
        odv: "order_domain_values self var a = Inr vals"
        and vals: "set vals = set (domain_of self var)"
        by blast
      have bt: "backtrack self a = try_values self a var vals"
        by (subst backtrack.simps) (simp add: False sel odv)
      from 1[OF False sel refl odv] inv pa var vals
      have tv: "(\<exists>r. try_values self a var vals = Inr r) \<and>
        (\<forall>f. solution ?cw f \<and> supports self f \<and> agrees a f \<and> f var \<in> set vals \<longrightarrow>
          try_values self a var vals \<noteq> Inr None)"
        by simp
      have "f var \<in> set vals" if "supports self f" for f
        using that var(1) vals by (simp add: supports_def)
      with tv show ?thesis unfolding bt by blast
    qed
  qed
next
  case (2 self a var)
  show ?case by simp
next
  case (3 self a var val rest)
  let ?cw = "crossword self"
  let ?new = "AList.update var val a"
  show ?case
  proof (intro impI)
    assume inv: "search_invariant self" and pa: "partial_assignment ?cw a"
      and var: "var \<in> set (variables ?cw)" "var \<notin> fst ` set a"
      and vals: "set (val # rest) \<subseteq> set (domain_of self var)"
    from inv have nc: "node_consistent self" and bounds: "overlaps_in_bounds ?cw"
      by (simp_all add: search_invariant_def)
    from vals nc have lv: "length val = var_length var"
      unfolding node_consistent_def by auto
    have pn: "partial_assignment ?cw ?new"
      using pa var(1) lv by (rule partial_assignment_update)
    from consistent_no_error[OF bounds pn] obtain ok where ok: "consistent self ?new = Inr ok" ..
    from vals have rest: "set rest \<subseteq> set (domain_of self var)" by simp
    have agree_new: "consistent self ?new = Inr True \<and> agrees ?new f"
      if "solution ?cw f" "agrees a f" "f var = val" for f
    proof -
      from that(2,3) have "agrees ?new f" by (rule agrees_update)
      moreover from pn have "distinct (map fst ?new)" "fst ` set ?new \<subseteq> set (variables ?cw)"
        by (simp_all add: partial_assignment_def)
      ultimately show ?thesis using consistent_of_solution[OF that(1)] by blast
    qed
    show "(\<exists>r. try_values self a var (val # rest) = Inr r) \<and>
          (\<forall>f. solution ?cw f \<and> supports self f \<and> agrees a f \<and> f var \<in> set (val # rest) \<longrightarrow>
               try_values self a var (val # rest) \<noteq> Inr None)"
    proof (cases ok)
      case True
      from "3.IH"(1)[OF refl ok True] inv pn
      have P: "(\<exists>r. backtrack self ?new = Inr r) \<and>
        (\<forall>f. solution ?cw f \<and> supports self f \<and> agrees ?new f \<longrightarrow> backtrack self ?new \<noteq> Inr None)"
        by simp
      then obtain br where br: "backtrack self ?new = Inr br" by blast
      show ?thesis
      proof (cases br)
        case None
        have eq: "try_values self a var (val # rest) = try_values self a var rest"
          using ok True br None by (simp add: Let_def)
        from "3.IH"(2)[OF refl ok True br None] inv pa var rest
        have Q: "(\<exists>r. try_values self a var rest = Inr r) \<and>
          (\<forall>f. solution ?cw f \<and> supports self f \<and> agrees a f \<and> f var \<in> set rest \<longrightarrow>
               try_values self a var rest \<noteq> Inr None)"
          by simp
        have "f var \<in> set rest"
          if "solution ?cw f" "supports self f" "agrees a f" "f var \<in> set (val # rest)" for f
        proof (rule ccontr)
          assume "f var \<notin> set rest"
          with that(4) have "f var = val" by simp
          from agree_new[OF that(1,3) this] that(1,2) P br None show False by blast
        qed
        with Q show ?thesis unfolding eq by blast
      next
        case (Some r')
        with ok True br have "try_values self a var (val # rest) = Inr (Some r')"
          by (simp add: Let_def)
        then show ?thesis by simp
      qed
    next
      case False
      have eq: "try_values self a var (val # rest) = try_values self a var rest"
        using ok False by (simp add: Let_def)
      from "3.IH"(3)[OF refl ok False] inv pa var rest
      have Q: "(\<exists>r. try_values self a var rest = Inr r) \<and>
        (\<forall>f. solution ?cw f \<and> supports self f \<and> agrees a f \<and> f var \<in> set rest \<longrightarrow>
             try_values self a var rest \<noteq> Inr None)"
        by simp
      have "f var \<in> set rest"
        if "solution ?cw f" "supports self f" "agrees a f" "f var \<in> set (val # rest)" for f
      proof (rule ccontr)
        assume "f var \<notin> set rest"
        with that(4) have "f var = val" by simp
        from agree_new[OF that(1,3) this] ok False show False by simp
      qed
      with Q show ?thesis unfolding eq by blast
    qed
  qed
qed

lemma consistent_valid:
  assumes ac: "assignment_complete self a" and d: "distinct (map fst a)"
    and co: "consistent self a = Inr True"
  shows "valid_assignment (crossword self) a"
proof -
  note sem = consistent_True[OF co]
  have "letters_agree wx i wy j"
    if "(x, wx) \<in> set a" "(y, wy) \<in> set a" "y \<in> set (neighbors (crossword self) x)"
       "overlaps (crossword self) (x, y) = Some (i, j)" for x wx y wy i j
    using sem(3)[OF map_of_is_SomeI[OF d that(1)] map_of_is_SomeI[OF d that(2)] that(3,4)] .
  then have "\<forall>(x, wx) \<in> set a. \<forall>(y, wy) \<in> set a. \<forall>i j.
        y \<in> set (neighbors (crossword self) x) \<longrightarrow> overlaps (crossword self) (x, y) = Some (i, j) \<longrightarrow>
        letters_agree wx i wy j"
    by blast
  moreover have "\<forall>(v, w) \<in> set a. length w = var_length v"
    using sem(2) by blast
  ultimately show ?thesis
    using ac d sem(1) unfolding valid_assignment_def assignment_complete_def by blast
qed

lemma valid_assignment_solution:
  assumes "valid_assignment cw sol"
  shows "solution cw (\<lambda>v. the (map_of sol v))"
    and "(v, w) \<in> set sol \<Longrightarrow> the (map_of sol v) = w"
proof -
  let ?f = "\<lambda>v. the (map_of sol v)"
  from assms have d: "distinct (map fst sol)" and k: "set (map fst sol) = set (variables cw)"
    and dv: "distinct (map snd sol)"
    and len: "\<And>v w. (v, w) \<in> set sol \<Longrightarrow> length w = var_length v"
    and ov: "\<And>x wx y wy i j. (x, wx) \<in> set sol \<Longrightarrow> (y, wy) \<in> set sol \<Longrightarrow>
        y \<in> set (neighbors cw x) \<Longrightarrow> overlaps cw (x, y) = Some (i, j) \<Longrightarrow>
        letters_agree wx i wy j"
    unfolding valid_assignment_def by blast+
  show f: "?f v = w" if "(v, w) \<in> set sol" for v w
    using map_of_is_SomeI[OF d that] by simp
  have mem: "(v, ?f v) \<in> set sol" if "v \<in> set (variables cw)" for v
  proof -
    from that k obtain w where "(v, w) \<in> set sol" by force
    with f[OF this] show ?thesis by simp
  qed
  have "inj_on ?f (set (variables cw))"
  proof (rule inj_onI)
    fix x y assume x: "x \<in> set (variables cw)" and y: "y \<in> set (variables cw)"
      and e: "?f x = ?f y"
    from dv have "inj_on snd (set sol)" by (simp add: distinct_map)
    from inj_onD[OF this, of "(x, ?f x)" "(y, ?f y)"] mem[OF x] mem[OF y] e
    show "x = y" by simp
  qed
  moreover have "\<forall>v \<in> set (variables cw). length (?f v) = var_length v"
    using mem len by blast
  moreover have "\<forall>x \<in> set (variables cw). \<forall>y \<in> set (neighbors cw x). \<forall>i j.
        overlaps cw (x, y) = Some (i, j) \<longrightarrow> letters_agree (?f x) i (?f y) j"
  proof (intro ballI allI impI)
    fix x y i j
    assume x: "x \<in> set (variables cw)" and y: "y \<in> set (neighbors cw x)"
      and o: "overlaps cw (x, y) = Some (i, j)"
    from y have "y \<in> set (variables cw)" by (simp add: neighbors_iff)
    from ov[OF mem[OF x] mem[OF this] y o] show "letters_agree (?f x) i (?f y) j" .
  qed
  ultimately show "solution cw ?f" unfolding solution_def by blast
qed

text \<open>
  Claim C3. When every variable of the puzzle has a domain, and some valid complete
  assignment exists whose words are in the domains (for a new solver: in the word
  list), then \<open>solve\<close> returns a valid complete assignment.
\<close>

theorem solve_complete:
  assumes keys: "fst ` set (domains self) = set (variables (crossword self))"
    and sol: "valid_assignment (crossword self) sol"
    and dom: "\<forall>(v, w) \<in> set sol. w \<in> set (domain_of self v)"
  shows "\<exists>calls a self'. solve self = Some (calls, Inr (Some a), self') \<and>
           valid_assignment (crossword self) a"
proof -
  let ?cw = "crossword self"
  let ?f = "\<lambda>v. the (map_of sol v)"
  let ?s1 = "enforce_node_consistency self"
  note f = valid_assignment_solution[OF sol]
  have sup: "supports self ?f"
    unfolding supports_def
  proof
    fix v assume "v \<in> set (variables ?cw)"
    with sol obtain w where w: "(v, w) \<in> set sol"
      unfolding valid_assignment_def by force
    with dom f(2)[OF w] show "?f v \<in> set (domain_of self v)" by auto
  qed
  from ac3_invariant[OF enforce_node_consistency_invariant[OF keys f(1) sup]]
  obtain s2 where run: "ac3 ?s1 None = Some (Inr True, s2)" and inv: "solver_invariant ?f s2"
    by blast
  from run have "ac3_loop ?s1
      (concat (map (\<lambda>x. map (\<lambda>y. (x, y)) (neighbors (crossword ?s1) x))
                            (map fst (domains ?s1)))) = Some (Inr True, s2)"
    by (simp add: ac3_def)
  from ac3_loop_crossword[OF this]
  have cw: "crossword s2 = ?cw" by (simp add: enforce_node_consistency_crossword)
  from inv have si: "search_invariant s2" and sol2: "solution (crossword s2) ?f"
    and sup2: "supports s2 ?f"
    by (auto simp: solver_invariant_def search_invariant_def dest: solution_in_bounds)
  have pa: "partial_assignment (crossword s2) []" by (simp add: partial_assignment_def)
  have ag: "agrees [] ?f" by (simp add: agrees_def)
  from backtrack_complete(1)[of s2 "[]"] si pa sol2 sup2 ag
  obtain a where bt: "backtrack s2 [] = Inr (Some a)"
    by (metis option.exhaust)
  from backtrack_sound(1)[of s2 "[]"] bt
  have "distinct (map fst a)" "assignment_complete s2 a" "consistent s2 a = Inr True"
    by (auto simp: consistent_empty)
  then have "valid_assignment (crossword s2) a"
    by (intro consistent_valid)
  moreover have "solve self =
      Some ([Call_enforce_node_consistency, Call_ac3, Call_backtrack], Inr (Some a), s2)"
    using run bt by (simp add: solve_def)
  ultimately show ?thesis unfolding cw by blast
qed

theorem solve_complete_witness:
  "valid_assignment scenario_B [(slot_across, ''ace''), (slot_down, ''cat'')] \<and>
   (\<exists>calls a self'. solve (init scenario_B) = Some (calls, Inr (Some a), self') \<and>
      valid_assignment scenario_B a)"
proof -
  have k: "fst ` set (domains (init scenario_B)) = set (variables (crossword (init scenario_B)))"
    by (simp add: init_def scenario_B_defs)
  have v: "valid_assignment scenario_B [(slot_across, ''ace''), (slot_down, ''cat'')]"
    by (simp add: valid_assignment_def neighbors_def letters_agree_def scenario_B_defs)
  have c: "crossword (init scenario_B) = scenario_B" by (simp add: init_def)
  have d: "\<forall>(v, w) \<in> set [(slot_across, ''ace''), (slot_down, ''cat'')].
      w \<in> set (domain_of (init scenario_B) v)"
    by (simp add: domain_of_def init_def scenario_B_defs)
  from solve_complete[OF k, of "[(slot_across, ''ace''), (slot_down, ''cat'')]"] v d
  show ?thesis unfolding c by blast
qed

end
